theory Spec2Isabelle
  imports Main "HOL-Library.Word" "HOL-Library.Multiset" "HOL-Library.AList"
begin

section \<open>The task graph runner of cc/resources/task_graph_runner.cc\<close>

text \<open>
  A shallow embedding of \<^verbatim>\<open>TaskGraphRunner\<close>. Objects that the C++ code reaches through
  pointers are identified by a key: a \<^verbatim>\<open>Task*\<close> is a natural number (its address), a
  \<^verbatim>\<open>TaskNamespace*\<close> is the token id under which \<^verbatim>\<open>namespaces_\<close> owns the object.
  The flag \<^verbatim>\<open>Task::did_run_\<close> of every task object lives in the field \<open>did_run\<close> of the
  state. A failing \<^verbatim>\<open>DCHECK\<close> is a value of type \<open>error\<close>: every operation returns
  \<open>error + result\<close>. The lock and the two condition variables carry no data; the lock is
  modelled by every operation being one atomic function, except
  \<^verbatim>\<open>RunTaskWithLockAcquired\<close>, which is split where it releases the lock.
\<close>

subsection \<open>The heap algorithms of the C++ standard library\<close>

text \<open>
  \<^verbatim>\<open>std::make_heap\<close>, \<^verbatim>\<open>std::push_heap\<close> and \<^verbatim>\<open>std::pop_heap\<close> on a vector, with the
  comparator \<open>lt\<close>: a binary max-heap stored in the sequence, the parent of index \<open>i\<close> at
  \<open>(i - 1) div 2\<close>.
\<close>

definition swap_at :: "'a list \<Rightarrow> nat \<Rightarrow> nat \<Rightarrow> 'a list" where
  "swap_at xs i j = xs[i := xs ! j, j := xs ! i]"

definition parent :: "nat \<Rightarrow> nat" where
  "parent i = (i - 1) div 2"

function sift_down :: "('a \<Rightarrow> 'a \<Rightarrow> bool) \<Rightarrow> 'a list \<Rightarrow> nat \<Rightarrow> 'a list" where
  "sift_down lt xs i =
     (if length xs \<le> 2 * i + 1 then xs
      else let c = (if 2 * i + 2 < length xs \<and> lt (xs ! (2 * i + 1)) (xs ! (2 * i + 2))
                    then 2 * i + 2 else 2 * i + 1)
           in if lt (xs ! i) (xs ! c) then sift_down lt (swap_at xs i c) c else xs)"
  by pat_completeness auto
termination
  by (relation "measure (\<lambda>(lt, xs, i). length xs - i)") (auto simp: swap_at_def)

function sift_up :: "('a \<Rightarrow> 'a \<Rightarrow> bool) \<Rightarrow> 'a list \<Rightarrow> nat \<Rightarrow> 'a list" where
  "sift_up lt xs i =
     (if i = 0 then xs
      else if lt (xs ! parent i) (xs ! i) then sift_up lt (swap_at xs (parent i) i) (parent i)
      else xs)"
  by pat_completeness auto
termination
  by (relation "measure (\<lambda>(lt, xs, i). i)") (auto simp: parent_def)

definition make_heap :: "('a \<Rightarrow> 'a \<Rightarrow> bool) \<Rightarrow> 'a list \<Rightarrow> 'a list" where
  "make_heap lt xs = fold (\<lambda>i ys. sift_down lt ys i) (rev [0..<length xs div 2]) xs"

text \<open>\<^verbatim>\<open>push_heap\<close>: the last element is the new one, the rest is a heap.\<close>

definition push_heap :: "('a \<Rightarrow> 'a \<Rightarrow> bool) \<Rightarrow> 'a list \<Rightarrow> 'a list" where
  "push_heap lt xs = (if xs = [] then xs else sift_up lt xs (length xs - 1))"

text \<open>\<^verbatim>\<open>pop_heap\<close>: moves the first (largest) element to the back; the rest is a heap again.\<close>

definition pop_heap :: "('a \<Rightarrow> 'a \<Rightarrow> bool) \<Rightarrow> 'a list \<Rightarrow> 'a list" where
  "pop_heap lt xs =
     (if length xs \<le> 1 then xs
      else sift_down lt ((butlast xs)[0 := last xs]) 0 @ [hd xs])"

definition is_heap :: "('a \<Rightarrow> 'a \<Rightarrow> bool) \<Rightarrow> 'a list \<Rightarrow> bool" where
  "is_heap lt xs = list_all (\<lambda>i. \<not> lt (xs ! parent i) (xs ! i)) [1..<length xs]"

definition heap_from :: "('a \<Rightarrow> 'a \<Rightarrow> bool) \<Rightarrow> 'a list \<Rightarrow> nat \<Rightarrow> bool" where
  "heap_from lt xs k \<longleftrightarrow>
     (\<forall>j. 0 < j \<and> j < length xs \<and> k \<le> parent j \<longrightarrow> \<not> lt (xs ! parent j) (xs ! j))"

text \<open>What the standard requires of a comparator: a strict weak ordering.\<close>

definition strict_weak :: "('a \<Rightarrow> 'a \<Rightarrow> bool) \<Rightarrow> bool" where
  "strict_weak lt \<longleftrightarrow>
     (\<forall>a. \<not> lt a a) \<and>
     (\<forall>a b c. lt a b \<longrightarrow> lt b c \<longrightarrow> lt a c) \<and>
     (\<forall>a b c. \<not> lt a b \<longrightarrow> \<not> lt b c \<longrightarrow> \<not> lt a c)"

subsection \<open>Data model\<close>

type_synonym Task = nat
type_synonym u32 = "32 word"

text \<open>\<^verbatim>\<open>TaskGraph::Node\<close>, \<^verbatim>\<open>TaskGraph::Edge\<close> and \<^verbatim>\<open>TaskGraph\<close>.\<close>

record Node =
  task :: Task
  priority :: u32
  dependencies :: u32

record Edge =
  task :: Task
  dependent :: Task

record TaskGraph =
  nodes :: "Node list"
  edges :: "Edge list"

record PrioritizedTask =
  task :: Task
  priority :: u32

record TaskNamespace =
  graph :: TaskGraph
  ready_to_run_tasks :: "PrioritizedTask list"
  completed_tasks :: "Task list"
  num_running_tasks :: u32

text \<open>
  The state guarded by \<^verbatim>\<open>lock_\<close>. \<^verbatim>\<open>namespaces_\<close> is a hash map from token id to the
  namespace it owns: an association list with distinct keys, whose order stands for the
  (unspecified) iteration order of the hash map. \<^verbatim>\<open>ready_to_run_namespaces_\<close> holds
  pointers to namespaces owned by the map: their keys. \<^verbatim>\<open>running_tasks_\<close> has one slot per
  worker, \<open>None\<close> for \<^verbatim>\<open>NULL\<close>.
\<close>

record TaskGraphRunner =
  namespaces :: "(int \<times> TaskNamespace) list"
  ready_to_run_namespaces :: "int list"
  running_tasks :: "Task option list"
  did_run :: "Task \<Rightarrow> bool"

text \<open>The \<^verbatim>\<open>DCHECK\<close>s of the source, and the two places where a pointer would dangle.\<close>

datatype error =
    InvalidToken \<comment> \<open>\<^verbatim>\<open>DCHECK(token.IsValid())\<close>\<close>
  | DependentNotInGraph \<comment> \<open>\<^verbatim>\<open>DCHECK(it != graph_->nodes.end())\<close>\<close>
  | NoDependencies \<comment> \<open>\<^verbatim>\<open>DCHECK_LT(0u, node.dependencies)\<close>\<close>
  | OutputNotEmpty \<comment> \<open>\<^verbatim>\<open>DCHECK_EQ(0u, completed_tasks->size())\<close>\<close>
  | NoReadyNamespace \<comment> \<open>\<^verbatim>\<open>DCHECK(!ready_to_run_namespaces_.empty())\<close>\<close>
  | NoReadyTask \<comment> \<open>\<^verbatim>\<open>DCHECK(!task_namespace->ready_to_run_tasks.empty())\<close>\<close>
  | BadThreadIndex \<comment> \<open>\<^verbatim>\<open>DCHECK_LT(thread_index, running_tasks_.size())\<close>\<close>
  | SlotInUse \<comment> \<open>\<^verbatim>\<open>DCHECK(!running_tasks_[thread_index])\<close>\<close>
  | AlreadyRan \<comment> \<open>\<^verbatim>\<open>DCHECK(!did_run_)\<close> in \<^verbatim>\<open>Task::WillRun\<close>\<close>
  | NoRunningTasks \<comment> \<open>\<^verbatim>\<open>DCHECK_LT(0u, task_namespace->num_running_tasks)\<close>\<close>
  | NamespaceAlreadyReady \<comment> \<open>the \<^verbatim>\<open>DCHECK(std::find(...) == end())\<close> of the fan-out\<close>
  | DanglingNamespace \<comment> \<open>a \<^verbatim>\<open>TaskNamespace*\<close> whose object is no longer in the map\<close>

definition new_TaskNamespace :: TaskNamespace where
  "new_TaskNamespace =
     \<lparr>graph = \<lparr>nodes = [], edges = []\<rparr>, ready_to_run_tasks = [], completed_tasks = [],
      num_running_tasks = 0\<rparr>"

text \<open>The constructor: \<^verbatim>\<open>running_tasks_(std::max(num_threads, 1), NULL)\<close>.\<close>

definition new_TaskGraphRunner :: "nat \<Rightarrow> TaskGraphRunner" where
  "new_TaskGraphRunner num_threads =
     \<lparr>namespaces = [], ready_to_run_namespaces = [],
      running_tasks = replicate (max num_threads 1) None, did_run = (\<lambda>t. False)\<rparr>"

subsection \<open>Declarations of task_graph_runner.h\<close>

text \<open>
  Modelled from the spec: \<^verbatim>\<open>CompareTaskPriority\<close>, declared in task_graph_runner.h
  (not among the sources). Section 4.3: \<open>a < b\<close> iff \<open>a.priority > b.priority\<close>.
\<close>

definition CompareTaskPriority :: "PrioritizedTask \<Rightarrow> PrioritizedTask \<Rightarrow> bool" where
  "CompareTaskPriority a b \<longleftrightarrow> PrioritizedTask.priority b < PrioritizedTask.priority a"

text \<open>
  Modelled from the spec: \<^verbatim>\<open>CompareTaskNamespacePriority\<close>, declared in
  task_graph_runner.h. Section 4.3: compares the priority of each namespace's current head
  ready task; it is called only when both namespaces have ready tasks. The head is
  \<^verbatim>\<open>ready_to_run_tasks.front()\<close>, undefined on an empty vector as \<open>hd []\<close> is: the callers
  below check \<open>has_ready_tasks\<close> for every namespace they compare, and fail otherwise.
\<close>

definition head_task :: "(int \<times> TaskNamespace) list \<Rightarrow> int \<Rightarrow> PrioritizedTask" where
  "head_task nss k = hd (ready_to_run_tasks (the (map_of nss k)))"

definition has_ready_tasks :: "(int \<times> TaskNamespace) list \<Rightarrow> int \<Rightarrow> bool" where
  "has_ready_tasks nss k =
     (case map_of nss k of None \<Rightarrow> False | Some ns \<Rightarrow> ready_to_run_tasks ns \<noteq> [])"

definition CompareTaskNamespacePriority ::
    "(int \<times> TaskNamespace) list \<Rightarrow> int \<Rightarrow> int \<Rightarrow> bool" where
  "CompareTaskNamespacePriority nss a b =
     CompareTaskPriority (head_task nss a) (head_task nss b)"

text \<open>
  Modelled from the spec: \<^verbatim>\<open>HasFinishedRunningTasksInNamespace\<close>, declared in
  task_graph_runner.h. Section 3: ready heap empty, no running task, no node in the graph.
\<close>

definition HasFinishedRunningTasksInNamespace :: "TaskNamespace \<Rightarrow> bool" where
  "HasFinishedRunningTasksInNamespace ns \<longleftrightarrow>
     ready_to_run_tasks ns = [] \<and> num_running_tasks ns = 0 \<and> nodes (graph ns) = []"

subsection \<open>DependentIterator\<close>

text \<open>\<^verbatim>\<open>std::find_if(nodes.begin(), nodes.end(), TaskComparator(t))\<close>: the first index.\<close>

fun find_node :: "Node list \<Rightarrow> Task \<Rightarrow> nat option" where
  "find_node [] t = None"
| "find_node (n # ns) t =
     (if Node.task n = t then Some 0 else map_option Suc (find_node ns t))"

text \<open>
  One step of a loop over \<^verbatim>\<open>DependentIterator\<close> in \<^verbatim>\<open>SetTaskGraph\<close>: the node of the
  edge's dependent is looked up, its counter checked and decremented.
\<close>

definition decrement_dependent :: "Node list \<Rightarrow> Task \<Rightarrow> error + Node list" where
  "decrement_dependent ns d =
     (case find_node ns d of
        None \<Rightarrow> Inl DependentNotInGraph
      | Some i \<Rightarrow>
          if dependencies (ns ! i) = 0 then Inl NoDependencies
          else Inr (ns[i := (ns ! i)\<lparr>dependencies := dependencies (ns ! i) - 1\<rparr>]))"

text \<open>\<^verbatim>\<open>for (DependentIterator node_it(graph, t); node_it; ++node_it)\<close> of the discount.\<close>

fun discount_task :: "Edge list \<Rightarrow> Task \<Rightarrow> Node list \<Rightarrow> error + Node list" where
  "discount_task [] t ns = Inr ns"
| "discount_task (e # es) t ns =
     (if Edge.task e = t then
        (case decrement_dependent ns (dependent e) of
           Inl err \<Rightarrow> Inl err
         | Inr ns' \<Rightarrow> discount_task es t ns')
      else discount_task es t ns)"

text \<open>The outer loop over \<^verbatim>\<open>task_namespace->completed_tasks\<close>.\<close>

fun discount_completed :: "Task list \<Rightarrow> Edge list \<Rightarrow> Node list \<Rightarrow> error + Node list" where
  "discount_completed [] es ns = Inr ns"
| "discount_completed (t # ts) es ns =
     (case discount_task es t ns of
        Inl err \<Rightarrow> Inl err
      | Inr ns' \<Rightarrow> discount_completed ts es ns')"

subsection \<open>SetTaskGraph\<close>

text \<open>\<^verbatim>\<open>std::swap(*old_it, nodes.back()); nodes.pop_back()\<close> when the task has an old node.\<close>

definition remove_old_node :: "Node list \<Rightarrow> Task \<Rightarrow> Node list" where
  "remove_old_node old t =
     (case find_node old t of
        None \<Rightarrow> old
      | Some i \<Rightarrow> butlast (old[i := last old]))"

definition is_running :: "Task option list \<Rightarrow> Task \<Rightarrow> bool" where
  "is_running rt t \<longleftrightarrow> Some t \<in> set rt"

text \<open>
  The loop that builds the new ready queue and removes the nodes of the new graph from
  the old one. It returns what is left of the old nodes and the queue.
\<close>

fun build_ready ::
    "(Task \<Rightarrow> bool) \<Rightarrow> Task option list \<Rightarrow> Node list \<Rightarrow> Node list \<Rightarrow> PrioritizedTask list
      \<Rightarrow> Node list \<times> PrioritizedTask list" where
  "build_ready dr rt [] old ready = (old, ready)"
| "build_ready dr rt (n # ns) old ready =
     (let old' = remove_old_node old (Node.task n) in
      if dependencies n \<noteq> 0 then build_ready dr rt ns old' ready
      else if dr (Node.task n) then build_ready dr rt ns old' ready
      else if is_running rt (Node.task n) then build_ready dr rt ns old' ready
      else build_ready dr rt ns old'
             (ready @ [\<lparr>PrioritizedTask.task = Node.task n,
                        priority = Node.priority n\<rparr>]))"

text \<open>The loop over the nodes left in the old graph: the tasks that are canceled.\<close>

fun cancel_tasks ::
    "(Task \<Rightarrow> bool) \<Rightarrow> Task option list \<Rightarrow> Node list \<Rightarrow> Task list \<Rightarrow> Task list" where
  "cancel_tasks dr rt [] completed = completed"
| "cancel_tasks dr rt (n # ns) completed =
     (if dr (Node.task n) then cancel_tasks dr rt ns completed
      else if is_running rt (Node.task n) then cancel_tasks dr rt ns completed
      else cancel_tasks dr rt ns (completed @ [Node.task n]))"

text \<open>The rebuilt \<^verbatim>\<open>ready_to_run_namespaces_\<close>: every namespace with a ready task.\<close>

definition ready_namespaces :: "(int \<times> TaskNamespace) list \<Rightarrow> int list" where
  "ready_namespaces nss = map fst (filter (\<lambda>kn. ready_to_run_tasks (snd kn) \<noteq> []) nss)"

text \<open>
  The part of \<^verbatim>\<open>SetTaskGraph\<close> that works on the namespace alone, from the discount of
  the completed tasks to the loop over the canceled nodes. The second component of the
  result is the caller's \<^verbatim>\<open>graph\<close> after the call: by \<^verbatim>\<open>Swap\<close> it holds the nodes left of
  the old graph and the old edges.
\<close>

definition set_namespace_graph ::
    "(Task \<Rightarrow> bool) \<Rightarrow> Task option list \<Rightarrow> TaskGraph \<Rightarrow> TaskNamespace
      \<Rightarrow> error + (TaskNamespace \<times> TaskGraph)" where
  "set_namespace_graph dr rt g task_namespace =
     (case discount_completed (completed_tasks task_namespace) (edges g) (nodes g) of
        Inl err \<Rightarrow> Inl err
      | Inr new_nodes \<Rightarrow>
          let built = build_ready dr rt new_nodes (nodes (graph task_namespace)) [];
              canceled = fst built;
              ready = make_heap CompareTaskPriority (snd built);
              completed = cancel_tasks dr rt canceled (completed_tasks task_namespace)
          in Inr (task_namespace
                    \<lparr>graph := \<lparr>nodes = new_nodes, edges = edges g\<rparr>,
                     ready_to_run_tasks := ready,
                     completed_tasks := completed\<rparr>,
                  \<lparr>nodes = canceled, edges = edges (graph task_namespace)\<rparr>))"

text \<open>\<^verbatim>\<open>namespaces_.take_and_erase(token.id_)\<close>, and a new namespace if there was none.\<close>

definition take_namespace :: "(int \<times> TaskNamespace) list \<Rightarrow> int \<Rightarrow> TaskNamespace" where
  "take_namespace nss k =
     (case map_of nss k of None \<Rightarrow> new_TaskNamespace | Some ns \<Rightarrow> ns)"

text \<open>\<^verbatim>\<open>SetTaskGraph(token, graph)\<close>.\<close>

definition SetTaskGraph ::
    "int \<Rightarrow> TaskGraph \<Rightarrow> TaskGraphRunner \<Rightarrow> error + (TaskGraphRunner \<times> TaskGraph)" where
  "SetTaskGraph token g s =
     (if token = 0 then Inl InvalidToken
      else
        case set_namespace_graph (did_run s) (running_tasks s) g
               (take_namespace (namespaces s) token) of
          Inl err \<Rightarrow> Inl err
        | Inr (ns', g') \<Rightarrow>
            let nss = AList.delete token (namespaces s) @ [(token, ns')];
                rrn = make_heap (CompareTaskNamespacePriority nss) (ready_namespaces nss)
            in Inr (s\<lparr>namespaces := nss, ready_to_run_namespaces := rrn\<rparr>, g'))"

subsection \<open>CollectCompletedTasks\<close>

text \<open>
  \<^verbatim>\<open>CollectCompletedTasks(token, completed_tasks)\<close>; \<open>out\<close> is the caller's vector, returned
  as the second component.
\<close>

definition CollectCompletedTasks ::
    "int \<Rightarrow> Task list \<Rightarrow> TaskGraphRunner \<Rightarrow> error + (TaskGraphRunner \<times> Task list)" where
  "CollectCompletedTasks token out s =
     (if token = 0 then Inl InvalidToken
      else case map_of (namespaces s) token of
        None \<Rightarrow> Inr (s, out)
      | Some ns \<Rightarrow>
          if out \<noteq> [] then Inl OutputNotEmpty
          else
            let ns' = ns\<lparr>completed_tasks := out\<rparr> in
            if \<not> HasFinishedRunningTasksInNamespace ns'
            then Inr (s\<lparr>namespaces := AList.update token ns' (namespaces s)\<rparr>,
                      completed_tasks ns)
            else Inr (s\<lparr>namespaces := AList.delete token (namespaces s)\<rparr>,
                      completed_tasks ns))"

subsection \<open>RunTaskWithLockAcquired\<close>

text \<open>
  The part of \<^verbatim>\<open>RunTaskWithLockAcquired(thread_index)\<close> before the lock is released for
  \<^verbatim>\<open>RunOnWorkerThread\<close>. It returns the new state and the two locals that live across
  the unlocked section: \<^verbatim>\<open>task\<close> and \<^verbatim>\<open>task_namespace\<close>.
\<close>

definition RunTask_dispatch ::
    "nat \<Rightarrow> TaskGraphRunner \<Rightarrow> error + (TaskGraphRunner \<times> Task \<times> int)" where
  "RunTask_dispatch thread_index s =
     (if ready_to_run_namespaces s = [] then Inl NoReadyNamespace
      else if \<not> list_all (has_ready_tasks (namespaces s)) (ready_to_run_namespaces s)
        then Inl NoReadyTask
      else
        let popped = pop_heap (CompareTaskNamespacePriority (namespaces s))
                       (ready_to_run_namespaces s);
            k = last popped;
            rrn = butlast popped
        in case map_of (namespaces s) k of
             None \<Rightarrow> Inl DanglingNamespace
           | Some ns \<Rightarrow>
               let tasks = pop_heap CompareTaskPriority (ready_to_run_tasks ns);
                   t = PrioritizedTask.task (last tasks);
                   ns' = ns\<lparr>ready_to_run_tasks := butlast tasks\<rparr>;
                   nss = AList.update k ns' (namespaces s);
                   rrn' = (if ready_to_run_tasks ns' \<noteq> []
                           then push_heap (CompareTaskNamespacePriority nss) (rrn @ [k])
                           else rrn)
               in if \<not> thread_index < length (running_tasks s) then Inl BadThreadIndex
                  else if running_tasks s ! thread_index \<noteq> None then Inl SlotInUse
                  else if did_run s t then Inl AlreadyRan
                  else Inr (s\<lparr>namespaces :=
                                 AList.update k
                                   (ns'\<lparr>num_running_tasks := num_running_tasks ns' + 1\<rparr>) nss,
                               ready_to_run_namespaces := rrn',
                               running_tasks := (running_tasks s)[thread_index := Some t]\<rparr>,
                            t, k))"

text \<open>
  The state of the fan-out loop: the nodes of the namespace's graph, its ready queue,
  \<^verbatim>\<open>ready_to_run_namespaces_\<close>, and \<^verbatim>\<open>ready_to_run_namespaces_has_heap_properties\<close>.
\<close>

type_synonym fan_out_state = "Node list \<times> PrioritizedTask list \<times> int list \<times> bool"

definition fan_out_step :: "int \<Rightarrow> Task \<Rightarrow> fan_out_state \<Rightarrow> error + fan_out_state" where
  "fan_out_step k d st =
     (case st of (ns, ready, rrn, has_heap) \<Rightarrow>
        (case find_node ns d of
           None \<Rightarrow> Inl DependentNotInGraph
         | Some i \<Rightarrow>
             if dependencies (ns ! i) = 0 then Inl NoDependencies
             else
               let n = (ns ! i)\<lparr>dependencies := dependencies (ns ! i) - 1\<rparr>;
                   ns' = ns[i := n]
               in if dependencies n \<noteq> 0 then Inr (ns', ready, rrn, has_heap)
                  else
                    let ready' = push_heap CompareTaskPriority
                                   (ready @ [\<lparr>PrioritizedTask.task = Node.task n,
                                              priority = Node.priority n\<rparr>])
                    in if ready = [] then
                         (if k \<in> set rrn then Inl NamespaceAlreadyReady
                          else Inr (ns', ready', rrn @ [k], False))
                       else Inr (ns', ready', rrn, False)))"

fun fan_out :: "int \<Rightarrow> Edge list \<Rightarrow> Task \<Rightarrow> fan_out_state \<Rightarrow> error + fan_out_state" where
  "fan_out k [] t st = Inr st"
| "fan_out k (e # es) t st =
     (if Edge.task e = t then
        (case fan_out_step k (dependent e) st of
           Inl err \<Rightarrow> Inl err
         | Inr st' \<Rightarrow> fan_out k es t st')
      else fan_out k es t st)"

text \<open>
  The part of \<^verbatim>\<open>RunTaskWithLockAcquired\<close> after the lock is taken again, from
  \<^verbatim>\<open>task->DidRun()\<close> on; \<open>t\<close> and \<open>k\<close> are the locals \<^verbatim>\<open>task\<close> and \<^verbatim>\<open>task_namespace\<close>.
\<close>

definition RunTask_finish ::
    "nat \<Rightarrow> Task \<Rightarrow> int \<Rightarrow> TaskGraphRunner \<Rightarrow> error + TaskGraphRunner" where
  "RunTask_finish thread_index t k s =
     (case map_of (namespaces s) k of
        None \<Rightarrow> Inl DanglingNamespace
      | Some ns \<Rightarrow>
          if num_running_tasks ns = 0 then Inl NoRunningTasks
          else if \<not> thread_index < length (running_tasks s) then Inl BadThreadIndex
          else
            (case fan_out k (edges (graph ns)) t
                    (nodes (graph ns), ready_to_run_tasks ns, ready_to_run_namespaces s, True) of
               Inl err \<Rightarrow> Inl err
             | Inr (ns_nodes, ready, rrn, has_heap) \<Rightarrow>
                 let ns' = ns\<lparr>graph := (graph ns)\<lparr>nodes := ns_nodes\<rparr>,
                              ready_to_run_tasks := ready,
                              completed_tasks := completed_tasks ns @ [t],
                              num_running_tasks := num_running_tasks ns - 1\<rparr>;
                     nss = AList.update k ns' (namespaces s)
                 in if \<not> has_heap \<and> \<not> list_all (has_ready_tasks nss) rrn then Inl NoReadyTask
                    else Inr (s\<lparr>namespaces := nss,
                                 ready_to_run_namespaces :=
                                   (if has_heap then rrn
                                    else make_heap (CompareTaskNamespacePriority nss) rrn),
                                 running_tasks := (running_tasks s)[thread_index := None],
                                 did_run := (did_run s)(t := True)\<rparr>)))"

text \<open>
  The whole function when nothing else happens while the task runs, as under
  \<^verbatim>\<open>RunTaskForTesting\<close>. The result names the task that was run.
\<close>

definition RunTaskWithLockAcquired ::
    "nat \<Rightarrow> TaskGraphRunner \<Rightarrow> error + (TaskGraphRunner \<times> Task)" where
  "RunTaskWithLockAcquired thread_index s =
     (case RunTask_dispatch thread_index s of
        Inl err \<Rightarrow> Inl err
      | Inr (s', t, k) \<Rightarrow>
          (case RunTask_finish thread_index t k s' of
             Inl err \<Rightarrow> Inl err
           | Inr s'' \<Rightarrow> Inr (s'', t)))"

subsection \<open>WaitForTasksToFinishRunning\<close>

text \<open>
  The loop \<^verbatim>\<open>while (!HasFinishedRunningTasksInNamespace(task_namespace)) cv.Wait()\<close>. While
  the caller waits, other threads change the state: \<open>wakeups\<close> lists the states found each
  time \<^verbatim>\<open>Wait\<close> returns. The result is \<open>None\<close> when the caller is still waiting after the
  last of them, and else the state in which the function returns.
\<close>

fun wait_loop ::
    "int \<Rightarrow> TaskGraphRunner \<Rightarrow> TaskGraphRunner list \<Rightarrow> (error + TaskGraphRunner) option" where
  "wait_loop k s [] =
     (case map_of (namespaces s) k of
        None \<Rightarrow> Some (Inl DanglingNamespace)
      | Some ns \<Rightarrow> if HasFinishedRunningTasksInNamespace ns then Some (Inr s) else None)"
| "wait_loop k s (w # ws) =
     (case map_of (namespaces s) k of
        None \<Rightarrow> Some (Inl DanglingNamespace)
      | Some ns \<Rightarrow> if HasFinishedRunningTasksInNamespace ns then Some (Inr s)
                   else wait_loop k w ws)"

definition WaitForTasksToFinishRunning ::
    "int \<Rightarrow> TaskGraphRunner \<Rightarrow> TaskGraphRunner list \<Rightarrow> (error + TaskGraphRunner) option" where
  "WaitForTasksToFinishRunning token s wakeups =
     (if token = 0 then Some (Inl InvalidToken)
      else case map_of (namespaces s) token of
        None \<Rightarrow> Some (Inr s)
      | Some ns \<Rightarrow> wait_loop token s wakeups)"

subsection \<open>Reachable states\<close>

text \<open>
  The states of a runner with \<open>num_threads\<close> workers that the operations reach without a
  failing check, the graphs submitted being those that satisfy \<open>P\<close>. The second argument
  gives, for every thread inside the unlocked section of \<^verbatim>\<open>RunTaskWithLockAcquired\<close>, its
  locals \<^verbatim>\<open>task\<close> and \<^verbatim>\<open>task_namespace\<close>.
\<close>

inductive reachable ::
    "(TaskGraph \<Rightarrow> bool) \<Rightarrow> nat \<Rightarrow> TaskGraphRunner \<Rightarrow> (nat \<Rightarrow> (Task \<times> int) option) \<Rightarrow> bool"
  for P :: "TaskGraph \<Rightarrow> bool" and num_threads :: nat where
  reachable_init:
    "reachable P num_threads (new_TaskGraphRunner num_threads) (\<lambda>i. None)"
| reachable_SetTaskGraph:
    "reachable P num_threads s locals \<Longrightarrow> P g \<Longrightarrow> SetTaskGraph token g s = Inr (s', g') \<Longrightarrow>
     reachable P num_threads s' locals"
| reachable_dispatch:
    "reachable P num_threads s locals \<Longrightarrow> locals i = None \<Longrightarrow>
     RunTask_dispatch i s = Inr (s', t, k) \<Longrightarrow>
     reachable P num_threads s' (locals(i := Some (t, k)))"
| reachable_finish:
    "reachable P num_threads s locals \<Longrightarrow> locals i = Some (t, k) \<Longrightarrow>
     RunTask_finish i t k s = Inr s' \<Longrightarrow>
     reachable P num_threads s' (locals(i := None))"
| reachable_CollectCompletedTasks:
    "reachable P num_threads s locals \<Longrightarrow> CollectCompletedTasks token out s = Inr (s', out') \<Longrightarrow>
     reachable P num_threads s' locals"

text \<open>A graph in which no two nodes are for the same task.\<close>

definition distinct_tasks :: "TaskGraph \<Rightarrow> bool" where
  "distinct_tasks g \<longleftrightarrow> distinct (map Node.task (nodes g))"

subsection \<open>Notions used to state the properties\<close>

text \<open>The number of edges from task \<open>t\<close> to task \<open>d\<close>.\<close>

definition edge_count :: "Edge list \<Rightarrow> Task \<Rightarrow> Task \<Rightarrow> nat" where
  "edge_count es t d = length (filter (\<lambda>e. Edge.task e = t \<and> dependent e = d) es)"

text \<open>
  The number of pairs of an entry \<open>t\<close> of the completed tasks and an edge from \<open>t\<close> to
  \<open>d\<close>: what the discount takes from the counter of \<open>d\<close>.
\<close>

definition discounts :: "Task list \<Rightarrow> Edge list \<Rightarrow> Task \<Rightarrow> nat" where
  "discounts cs es d = sum_list (map (\<lambda>t. edge_count es t d) cs)"

text \<open>The number of edges into \<open>d\<close>.\<close>

definition in_degree :: "Edge list \<Rightarrow> Task \<Rightarrow> nat" where
  "in_degree es d = length (filter (\<lambda>e. dependent e = d) es)"

definition prioritized :: "Node \<Rightarrow> PrioritizedTask" where
  "prioritized n = \<lparr>PrioritizedTask.task = Node.task n, priority = Node.priority n\<rparr>"

text \<open>A node that \<^verbatim>\<open>SetTaskGraph\<close> puts on the ready queue.\<close>

definition runnable :: "(Task \<Rightarrow> bool) \<Rightarrow> Task option list \<Rightarrow> Node \<Rightarrow> bool" where
  "runnable dr rt n \<longleftrightarrow>
     dependencies n = 0 \<and> \<not> dr (Node.task n) \<and> \<not> is_running rt (Node.task n)"

text \<open>A node of the old graph that \<^verbatim>\<open>SetTaskGraph\<close> cancels when it is left over.\<close>

definition cancelable :: "(Task \<Rightarrow> bool) \<Rightarrow> Task option list \<Rightarrow> Node \<Rightarrow> bool" where
  "cancelable dr rt n \<longleftrightarrow> \<not> dr (Node.task n) \<and> \<not> is_running rt (Node.task n)"

subsection \<open>Example states\<close>

text \<open>A runner with one namespace, whose only task runs on the only worker.\<close>

definition busy_runner :: TaskGraphRunner where
  "busy_runner =
     \<lparr>namespaces = [(1, new_TaskNamespace\<lparr>num_running_tasks := 1\<rparr>)],
      ready_to_run_namespaces = [], running_tasks = [Some 7], did_run = (\<lambda>t. False)\<rparr>"

text \<open>The same runner after the task has finished.\<close>

definition idle_runner :: TaskGraphRunner where
  "idle_runner =
     \<lparr>namespaces = [(1, new_TaskNamespace\<lparr>completed_tasks := [7]\<rparr>)],
      ready_to_run_namespaces = [], running_tasks = [None], did_run = (\<lambda>t. t = 7)\<rparr>"

subsection \<open>Example graphs\<close>

definition node :: "Task \<Rightarrow> u32 \<Rightarrow> u32 \<Rightarrow> Node" where
  "node t p d = \<lparr>Node.task = t, priority = p, dependencies = d\<rparr>"

definition edge :: "Task \<Rightarrow> Task \<Rightarrow> Edge" where
  "edge t d = \<lparr>Edge.task = t, dependent = d\<rparr>"

text \<open>Task 1 and task 2, which depends on task 1; and the single task 3.\<close>

definition graph_1_2 :: TaskGraph where
  "graph_1_2 = \<lparr>nodes = [node 1 0 0, node 2 0 1], edges = [edge 1 2]\<rparr>"

definition graph_3 :: TaskGraph where
  "graph_3 = \<lparr>nodes = [node 3 0 0], edges = []\<rparr>"

text \<open>A runner with one worker after \<open>graph_1_2\<close> was submitted under token 1.\<close>

definition submitted_1_2 :: TaskGraphRunner where
  "submitted_1_2 =
     \<lparr>namespaces =
        [(1, \<lparr>graph = graph_1_2,
               ready_to_run_tasks = [\<lparr>PrioritizedTask.task = 1, priority = 0\<rparr>],
               completed_tasks = [], num_running_tasks = 0\<rparr>)],
      ready_to_run_namespaces = [1], running_tasks = [None], did_run = (\<lambda>t. False)\<rparr>"

text \<open>The same runner after \<open>graph_3\<close> was submitted next: tasks 1 and 2 are canceled.\<close>

definition submitted_3 :: TaskGraphRunner where
  "submitted_3 =
     \<lparr>namespaces =
        [(1, \<lparr>graph = graph_3,
               ready_to_run_tasks = [\<lparr>PrioritizedTask.task = 3, priority = 0\<rparr>],
               completed_tasks = [1, 2], num_running_tasks = 0\<rparr>)],
      ready_to_run_namespaces = [1], running_tasks = [None], did_run = (\<lambda>t. False)\<rparr>"

text \<open>
  The runner after task 1 alone was submitted and run, and not collected; and after
  \<open>graph_1_2\<close> was submitted then.
\<close>

definition ran_1 :: TaskGraphRunner where
  "ran_1 =
     \<lparr>namespaces =
        [(1, \<lparr>graph = \<lparr>nodes = [node 1 0 0], edges = []\<rparr>,
               ready_to_run_tasks = [],
               completed_tasks = [1], num_running_tasks = 0\<rparr>)],
      ready_to_run_namespaces = [], running_tasks = [None], did_run = (\<lambda>t. t = 1)\<rparr>"

definition ran_1_submitted_1_2 :: TaskGraphRunner where
  "ran_1_submitted_1_2 =
     \<lparr>namespaces =
        [(1, \<lparr>graph = \<lparr>nodes = [node 1 0 0, node 2 0 0], edges = [edge 1 2]\<rparr>,
               ready_to_run_tasks = [\<lparr>PrioritizedTask.task = 2, priority = 0\<rparr>],
               completed_tasks = [1], num_running_tasks = 0\<rparr>)],
      ready_to_run_namespaces = [1], running_tasks = [None], did_run = (\<lambda>t. t = 1)\<rparr>"

text \<open>A fresh runner with one worker.\<close>

definition fresh_runner :: TaskGraphRunner where
  "fresh_runner = new_TaskGraphRunner 1"

text \<open>
  A runner with one worker and the namespace of token 2, of which task 5 has finished
  and task 6 is running on the worker.
\<close>

definition running_6 :: TaskGraphRunner where
  "running_6 =
     \<lparr>namespaces =
        [(2, \<lparr>graph = \<lparr>nodes = [node 5 0 0, node 6 0 0], edges = []\<rparr>,
               ready_to_run_tasks = [],
               completed_tasks = [5], num_running_tasks = 1\<rparr>)],
      ready_to_run_namespaces = [], running_tasks = [Some 6], did_run = (\<lambda>t. t = 5)\<rparr>"

text \<open>
  A graph of six tasks: tasks 1, 2 and 3 with priorities 5, 1 and 3, task 4 that depends
  on task 1, and the tasks 5 and 6.
\<close>

definition graph_six :: TaskGraph where
  "graph_six =
     \<lparr>nodes = [node 1 5 0, node 2 1 0, node 3 3 0, node 4 0 1, node 5 0 0, node 6 0 0],
      edges = [edge 1 4]\<rparr>"

text \<open>The runner \<open>running_6\<close> after \<open>graph_six\<close> was submitted under token 1.\<close>

definition running_6_submitted_six :: TaskGraphRunner where
  "running_6_submitted_six =
     \<lparr>namespaces =
        [(2, \<lparr>graph = \<lparr>nodes = [node 5 0 0, node 6 0 0], edges = []\<rparr>,
               ready_to_run_tasks = [],
               completed_tasks = [5], num_running_tasks = 1\<rparr>),
         (1, \<lparr>graph = graph_six,
               ready_to_run_tasks =
                 [\<lparr>PrioritizedTask.task = 2, priority = 1\<rparr>,
                  \<lparr>PrioritizedTask.task = 1, priority = 5\<rparr>,
                  \<lparr>PrioritizedTask.task = 3, priority = 3\<rparr>],
               completed_tasks = [], num_running_tasks = 0\<rparr>)],
      ready_to_run_namespaces = [1], running_tasks = [Some 6], did_run = (\<lambda>t. t = 5)\<rparr>"

subsection \<open>Invariants\<close>

text \<open>
  \<^verbatim>\<open>ready_to_run_namespaces_\<close> holds every namespace with a ready task, once, and no
  other; the keys of the map are distinct.
\<close>

definition ready_namespaces_ok :: "TaskGraphRunner \<Rightarrow> bool" where
  "ready_namespaces_ok s \<longleftrightarrow>
     distinct (map fst (namespaces s)) \<and> distinct (ready_to_run_namespaces s) \<and>
     set (ready_to_run_namespaces s) = set (ready_namespaces (namespaces s))"

text \<open>Both levels of queues are heaps for their comparators.\<close>

definition heaps_ok :: "TaskGraphRunner \<Rightarrow> bool" where
  "heaps_ok s \<longleftrightarrow>
     is_heap (CompareTaskNamespacePriority (namespaces s)) (ready_to_run_namespaces s) \<and>
     list_all (\<lambda>kn. is_heap CompareTaskPriority (ready_to_run_tasks (snd kn))) (namespaces s)"



text \<open>
  The runner \<open>submitted_1_2\<close> after task 1 was taken by worker 0, and after task 1 has
  finished there: task 2 has become ready.
\<close>

definition dispatched_1 :: TaskGraphRunner where
  "dispatched_1 =
     \<lparr>namespaces =
        [(1, \<lparr>graph = graph_1_2, ready_to_run_tasks = [],
               completed_tasks = [], num_running_tasks = 1\<rparr>)],
      ready_to_run_namespaces = [], running_tasks = [Some 1], did_run = (\<lambda>t. False)\<rparr>"

definition finished_1 :: TaskGraphRunner where
  "finished_1 =
     \<lparr>namespaces =
        [(1, \<lparr>graph = \<lparr>nodes = [node 1 0 0, node 2 0 0], edges = [edge 1 2]\<rparr>,
               ready_to_run_tasks = [\<lparr>PrioritizedTask.task = 2, priority = 0\<rparr>],
               completed_tasks = [1], num_running_tasks = 0\<rparr>)],
      ready_to_run_namespaces = [1], running_tasks = [None],
      did_run = (\<lambda>t. False)(1 := True)\<rparr>"

text \<open>
  Two namespaces with one task each: task 1 with priority 5 under token 1, task 2 with
  priority 1 under token 2.
\<close>

definition graph_x :: TaskGraph where
  "graph_x = \<lparr>nodes = [node 1 5 0], edges = []\<rparr>"

definition graph_y :: TaskGraph where
  "graph_y = \<lparr>nodes = [node 2 1 0], edges = []\<rparr>"

definition namespace_x :: TaskNamespace where
  "namespace_x =
     \<lparr>graph = graph_x, ready_to_run_tasks = [\<lparr>PrioritizedTask.task = 1, priority = 5\<rparr>],
      completed_tasks = [], num_running_tasks = 0\<rparr>"

definition namespace_y :: TaskNamespace where
  "namespace_y =
     \<lparr>graph = graph_y, ready_to_run_tasks = [\<lparr>PrioritizedTask.task = 2, priority = 1\<rparr>],
      completed_tasks = [], num_running_tasks = 0\<rparr>"

text \<open>The runner after \<open>graph_x\<close> was submitted, and after \<open>graph_y\<close> was submitted next.\<close>

definition submitted_x :: TaskGraphRunner where
  "submitted_x =
     \<lparr>namespaces = [(1, namespace_x)], ready_to_run_namespaces = [1],
      running_tasks = [None], did_run = (\<lambda>t. False)\<rparr>"

definition submitted_x_y :: TaskGraphRunner where
  "submitted_x_y =
     \<lparr>namespaces = [(1, namespace_x), (2, namespace_y)], ready_to_run_namespaces = [2, 1],
      running_tasks = [None], did_run = (\<lambda>t. False)\<rparr>"

text \<open>The runner after \<open>graph_y\<close> was submitted, and after \<open>graph_x\<close> was submitted next.\<close>

definition submitted_y :: TaskGraphRunner where
  "submitted_y =
     \<lparr>namespaces = [(2, namespace_y)], ready_to_run_namespaces = [2],
      running_tasks = [None], did_run = (\<lambda>t. False)\<rparr>"

definition submitted_y_x :: TaskGraphRunner where
  "submitted_y_x =
     \<lparr>namespaces = [(2, namespace_y), (1, namespace_x)], ready_to_run_namespaces = [2, 1],
      running_tasks = [None], did_run = (\<lambda>t. False)\<rparr>"

text \<open>Both of them after worker 0 has taken a task: it is task 2.\<close>

definition dispatched_x_y :: TaskGraphRunner where
  "dispatched_x_y =
     \<lparr>namespaces =
        [(1, namespace_x),
         (2, namespace_y\<lparr>ready_to_run_tasks := [], num_running_tasks := 1\<rparr>)],
      ready_to_run_namespaces = [1],
      running_tasks = [Some 2], did_run = (\<lambda>t. False)\<rparr>"

definition dispatched_y_x :: TaskGraphRunner where
  "dispatched_y_x =
     \<lparr>namespaces =
        [(2, namespace_y\<lparr>ready_to_run_tasks := [], num_running_tasks := 1\<rparr>),
         (1, namespace_x)],
      ready_to_run_namespaces = [1],
      running_tasks = [Some 2], did_run = (\<lambda>t. False)\<rparr>"

subsection \<open>Sequences of calls\<close>












section \<open>Properties\<close>


subsection \<open>The heap algorithms\<close>

declare sift_down.simps [simp del] sift_up.simps [simp del]

lemma length_swap_at [simp]: "length (swap_at xs i j) = length xs"
  by (simp add: swap_at_def)

lemma mset_swap_at [simp]: "i < length xs \<Longrightarrow> j < length xs \<Longrightarrow> mset (swap_at xs i j) = mset xs"
  by (simp add: swap_at_def mset_swap)

lemma sift_down_step:
  "\<not> length xs \<le> 2 * i + 1 \<Longrightarrow>
   c = (if 2 * i + 2 < length xs \<and> lt (xs ! (2 * i + 1)) (xs ! (2 * i + 2))
        then 2 * i + 2 else 2 * i + 1) \<Longrightarrow>
   sift_down lt xs i = (if lt (xs ! i) (xs ! c) then sift_down lt (swap_at xs i c) c else xs)"
  by (subst sift_down.simps) (simp add: Let_def)

lemma length_sift_down [simp]: "length (sift_down lt xs i) = length xs"
  by (induction lt xs i rule: sift_down.induct) (subst sift_down.simps, simp add: Let_def)

lemma mset_sift_down [simp]: "i < length xs \<Longrightarrow> mset (sift_down lt xs i) = mset xs"
proof (induction lt xs i rule: sift_down.induct)
  case (1 lt xs i)
  show ?case
  proof (cases "length xs \<le> 2 * i + 1")
    case True
    then show ?thesis by (subst sift_down.simps) simp
  next
    case False
    define c where "c = (if 2 * i + 2 < length xs \<and> lt (xs ! (2 * i + 1)) (xs ! (2 * i + 2))
                    then 2 * i + 2 else 2 * i + 1)"
    have c: "c < length xs" using False by (simp add: c_def)
    show ?thesis
    proof (cases "lt (xs ! i) (xs ! c)")
      case True
      have "mset (sift_down lt (swap_at xs i c) c) = mset (swap_at xs i c)"
        using "1.IH" [OF False c_def True] c by simp
      then show ?thesis
        using True c "1.prems" by (simp add: sift_down_step [of xs i c lt, OF False c_def])
    next
      case nc: False
      then show ?thesis by (simp add: sift_down_step [of xs i c lt, OF False c_def])
    qed
  qed
qed

lemma length_sift_up [simp]: "length (sift_up lt xs i) = length xs"
  by (induction lt xs i rule: sift_up.induct) (subst sift_up.simps, simp)

lemma mset_sift_up [simp]: "i < length xs \<Longrightarrow> mset (sift_up lt xs i) = mset xs"
proof (induction lt xs i rule: sift_up.induct)
  case (1 lt xs i)
  have p: "parent i < length xs" using "1.prems" by (simp add: parent_def)
  show ?case
    using 1 p by (subst sift_up.simps) simp
qed



lemma is_heap_iff:
  "is_heap lt xs \<longleftrightarrow> (\<forall>j. 0 < j \<and> j < length xs \<longrightarrow> \<not> lt (xs ! parent j) (xs ! j))"
  by (auto simp: is_heap_def list_all_iff)

lemma is_heap_heap_from: "is_heap lt xs \<longleftrightarrow> heap_from lt xs 0"
  by (simp add: is_heap_iff heap_from_def)

lemma parent_eq_iff: "0 < j \<Longrightarrow> parent j = i \<longleftrightarrow> j = 2 * i + 1 \<or> j = 2 * i + 2"
  by (auto simp: parent_def)

lemma parent_less: "0 < j \<Longrightarrow> parent j < j"
  by (simp add: parent_def)

lemma nth_swap_at:
  "i < length xs \<Longrightarrow> c < length xs \<Longrightarrow>
   swap_at xs i c ! j = (if j = c then xs ! i else if j = i then xs ! c else xs ! j)"
  by (auto simp: swap_at_def nth_list_update)

lemma sift_down_heap_from:
  "strict_weak lt \<Longrightarrow> k \<le> i \<Longrightarrow>
     (\<forall>j. 0 < j \<and> j < length xs \<and> k \<le> parent j \<and> parent j \<noteq> i \<longrightarrow> \<not> lt (xs ! parent j) (xs ! j)) \<Longrightarrow>
     (0 < i \<and> k \<le> parent i \<longrightarrow> (\<forall>j. 0 < j \<and> j < length xs \<and> parent j = i \<longrightarrow> \<not> lt (xs ! parent i) (xs ! j))) \<Longrightarrow>
     heap_from lt (sift_down lt xs i) k"
proof (induction lt xs i rule: sift_down.induct)
  case (1 lt xs i)
  note sw = "1.prems"(1) and ki = "1.prems"(2)
  have irrefl: "\<And>a. \<not> lt a a" and tr: "\<And>a b c. lt a b \<Longrightarrow> lt b c \<Longrightarrow> lt a c"
    and ntr: "\<And>a b c. \<not> lt a b \<Longrightarrow> \<not> lt b c \<Longrightarrow> \<not> lt a c"
    using sw unfolding strict_weak_def by blast+
  have asym: "\<And>a b. lt a b \<Longrightarrow> \<not> lt b a" using irrefl tr by blast
  note A = "1.prems"(3) and B = "1.prems"(4)
  show ?case
  proof (cases "length xs \<le> 2 * i + 1")
    case True
    have "\<And>j. 0 < j \<Longrightarrow> j < length xs \<Longrightarrow> parent j \<noteq> i"
      using True by (auto simp: parent_eq_iff)
    with A have "heap_from lt xs k" unfolding heap_from_def by blast
    then show ?thesis using True by (subst sift_down.simps) simp
  next
    case False
    define c where "c = (if 2 * i + 2 < length xs \<and> lt (xs ! (2 * i + 1)) (xs ! (2 * i + 2))
                    then 2 * i + 2 else 2 * i + 1)"
    have c: "c < length xs" "i < c" "parent c = i" "0 < c" "i < length xs"
      using False by (auto simp: c_def parent_def)
    have cmax: "\<And>j. 0 < j \<Longrightarrow> j < length xs \<Longrightarrow> parent j = i \<Longrightarrow> \<not> lt (xs ! c) (xs ! j)"
    proof -
      fix j assume "0 < j" "j < length xs" "parent j = i"
      then have "j = 2 * i + 1 \<or> j = 2 * i + 2" by (simp add: parent_eq_iff)
      then show "\<not> lt (xs ! c) (xs ! j)"
        using irrefl asym \<open>j < length xs\<close> by (auto simp: c_def)
    qed
    show ?thesis
    proof (cases "lt (xs ! i) (xs ! c)")
      case nlt: False
      have "\<And>j. 0 < j \<Longrightarrow> j < length xs \<Longrightarrow> parent j = i \<Longrightarrow> \<not> lt (xs ! parent j) (xs ! j)"
        using ntr [OF nlt cmax] by blast
      with A have "heap_from lt xs k" unfolding heap_from_def by blast
      then show ?thesis using nlt by (simp add: sift_down_step [of xs i c lt, OF False c_def])
    next
      case True
      let ?ys = "swap_at xs i c"
      have len: "length ?ys = length xs" by simp
      have A': "\<forall>j. 0 < j \<and> j < length ?ys \<and> k \<le> parent j \<and> parent j \<noteq> c \<longrightarrow> \<not> lt (?ys ! parent j) (?ys ! j)"
      proof (intro allI impI, elim conjE)
        fix j assume j: "0 < j" "j < length ?ys" "k \<le> parent j" "parent j \<noteq> c"
        then have jl: "j < length xs" by simp
        show "\<not> lt (?ys ! parent j) (?ys ! j)"
        proof (cases "parent j = i")
          case pj: True
          then have ji: "j \<noteq> i" using parent_less [OF j(1)] by auto
          show ?thesis
          proof (cases "j = c")
            case True
            then show ?thesis using pj c \<open>lt (xs ! i) (xs ! c)\<close> asym
              by (simp add: nth_swap_at)
          next
            case False
            then show ?thesis using pj c ji cmax [OF j(1) jl pj]
              by (simp add: nth_swap_at)
          qed
        next
          case pj: False
          have jc: "j \<noteq> c" using pj c by auto
          have old: "\<not> lt (xs ! parent j) (xs ! j)" using A j jl pj by blast
          show ?thesis
          proof (cases "j = i")
            case True
            then have "0 < i" "k \<le> parent i" using j by auto
            with B have "\<not> lt (xs ! parent i) (xs ! c)" using c by blast
            moreover have "parent i \<noteq> i" "parent i \<noteq> c" using parent_less [of i] \<open>0 < i\<close> c by auto
            ultimately show ?thesis using True c by (simp add: nth_swap_at)
          next
            case False
            then show ?thesis using old pj j(4) jc c by (simp add: nth_swap_at)
          qed
        qed
      qed
      have B': "0 < c \<and> k \<le> parent c \<longrightarrow> (\<forall>j. 0 < j \<and> j < length ?ys \<and> parent j = c \<longrightarrow> \<not> lt (?ys ! parent c) (?ys ! j))"
      proof (intro allI impI, elim conjE)
        fix j assume j: "0 < j" "j < length ?ys" "parent j = c" and kc: "k \<le> parent c"
        have jn: "j \<noteq> c" "j \<noteq> i" using parent_less [OF j(1)] j(3) c by auto
        have "k \<le> parent j" using j(3) c ki by simp
        then have "\<not> lt (xs ! parent j) (xs ! j)" using A j c by auto
        then show "\<not> lt (?ys ! parent c) (?ys ! j)"
          using j jn c by (simp add: nth_swap_at)
      qed
      have kc: "k \<le> c" using ki c by simp
      have "heap_from lt (sift_down lt ?ys c) k"
        using "1.IH" [OF False c_def True sw kc A' B'] .
      then show ?thesis using True by (simp add: sift_down_step [of xs i c lt, OF False c_def])
    qed
  qed
qed



lemma length_make_heap_aux:
  "length (fold (\<lambda>i ys. sift_down lt ys i) is xs) = length xs"
  by (induction "is" arbitrary: xs) simp_all

lemma length_make_heap [simp]: "length (make_heap lt xs) = length xs"
  by (simp add: make_heap_def length_make_heap_aux)

lemma mset_make_heap_aux:
  "\<forall>i\<in>set is. i < length xs \<Longrightarrow> mset (fold (\<lambda>i ys. sift_down lt ys i) is xs) = mset xs"
  by (induction "is" arbitrary: xs) simp_all

lemma mset_make_heap [simp]: "mset (make_heap lt xs) = mset xs"
  unfolding make_heap_def by (rule mset_make_heap_aux) auto

lemma make_heap_aux:
  "strict_weak lt \<Longrightarrow> heap_from lt xs m \<Longrightarrow>
   heap_from lt (fold (\<lambda>i ys. sift_down lt ys i) (rev [0..<m]) xs) 0"
proof (induction m arbitrary: xs)
  case 0
  then show ?case by simp
next
  case (Suc m)
  have "heap_from lt (sift_down lt xs m) m"
  proof (rule sift_down_heap_from [OF Suc.prems(1)])
    show "m \<le> m" by simp
    show "\<forall>j. 0 < j \<and> j < length xs \<and> m \<le> parent j \<and> parent j \<noteq> m \<longrightarrow> \<not> lt (xs ! parent j) (xs ! j)"
      using Suc.prems(2) unfolding heap_from_def by (simp add: Suc_le_eq)
    show "0 < m \<and> m \<le> parent m \<longrightarrow> (\<forall>j. 0 < j \<and> j < length xs \<and> parent j = m \<longrightarrow> \<not> lt (xs ! parent m) (xs ! j))"
      using parent_less [of m] by auto
  qed
  from Suc.IH [OF Suc.prems(1) this] show ?case by simp
qed

lemma is_heap_make_heap: "strict_weak lt \<Longrightarrow> is_heap lt (make_heap lt xs)"
proof -
  assume sw: "strict_weak lt"
  have "heap_from lt xs (length xs div 2)"
    unfolding heap_from_def parent_def by auto
  from make_heap_aux [OF sw this] show ?thesis
    by (simp add: make_heap_def is_heap_heap_from)
qed

lemma is_heap_hd_max:
  assumes sw: "strict_weak lt" and h: "is_heap lt xs"
  shows "j < length xs \<Longrightarrow> \<not> lt (xs ! 0) (xs ! j)"
proof (induction j rule: less_induct)
  case (less j)
  show ?case
  proof (cases "j = 0")
    case True
    then show ?thesis using sw by (simp add: strict_weak_def)
  next
    case False
    then have pj: "parent j < j" by (simp add: parent_less)
    have a: "\<not> lt (xs ! 0) (xs ! parent j)" using less.IH [OF pj] pj less.prems by simp
    have b: "\<not> lt (xs ! parent j) (xs ! j)" using h False less.prems by (simp add: is_heap_iff)
    from sw a b show ?thesis unfolding strict_weak_def by blast
  qed
qed

lemma is_heap_hd:
  assumes "strict_weak lt" and "is_heap lt xs" and "x \<in> set xs"
  shows "\<not> lt (hd xs) x"
proof -
  from assms(3) obtain j where j: "j < length xs" "xs ! j = x"
    by (auto simp: in_set_conv_nth)
  then have "xs \<noteq> []" by auto
  then have "hd xs = xs ! 0" by (simp add: hd_conv_nth)
  with is_heap_hd_max [OF assms(1,2) j(1)] j(2) show ?thesis by simp
qed

lemma length_pop_heap [simp]: "length (pop_heap lt xs) = length xs"
  by (cases xs) (auto simp: pop_heap_def)

lemma mset_pop_heap [simp]: "mset (pop_heap lt xs) = mset xs"
proof (cases "length xs \<le> 1")
  case True
  then show ?thesis by (simp add: pop_heap_def)
next
  case False
  then obtain x zs where xz: "xs = x # zs" "zs \<noteq> []"
    by (cases xs) auto
  then obtain ys z where "zs = ys @ [z]"
    by (cases zs rule: rev_cases) auto
  with xz have xs: "xs = x # ys @ [z]" by simp
  show ?thesis by (simp add: pop_heap_def xs butlast_append)
qed

lemma last_pop_heap: "xs \<noteq> [] \<Longrightarrow> last (pop_heap lt xs) = hd xs"
  by (cases xs) (auto simp: pop_heap_def)

lemma is_heap_butlast:
  assumes "is_heap lt xs"
  shows "is_heap lt (butlast xs)"
  unfolding is_heap_iff
proof (intro allI impI, elim conjE)
  fix j assume j: "0 < j" "j < length (butlast xs)"
  then have jl: "j < length xs - 1" by simp
  have pj: "parent j < length xs - 1" using parent_less [OF j(1)] jl by simp
  have "\<not> lt (xs ! parent j) (xs ! j)" using assms j(1) jl by (simp add: is_heap_iff)
  then show "\<not> lt (butlast xs ! parent j) (butlast xs ! j)"
    using jl pj by (simp add: nth_butlast)
qed

lemma is_heap_pop_heap:
  assumes sw: "strict_weak lt" and h: "is_heap lt xs"
  shows "is_heap lt (butlast (pop_heap lt xs))"
proof (cases "length xs \<le> 1")
  case True
  then show ?thesis using h by (simp add: pop_heap_def is_heap_butlast)
next
  case False
  let ?ys = "(butlast xs)[0 := last xs]"
  have "heap_from lt (sift_down lt ?ys 0) 0"
  proof (rule sift_down_heap_from [OF sw])
    show "(0::nat) \<le> 0" by simp
    show "\<forall>j. 0 < j \<and> j < length ?ys \<and> 0 \<le> parent j \<and> parent j \<noteq> 0 \<longrightarrow> \<not> lt (?ys ! parent j) (?ys ! j)"
    proof (intro allI impI, elim conjE)
      fix j assume j: "0 < j" "j < length ?ys" "parent j \<noteq> 0"
      then have jl: "j < length xs - 1" by simp
      have pj: "parent j < length xs - 1" using parent_less [OF j(1)] jl by simp
      have "\<not> lt (xs ! parent j) (xs ! j)" using h j(1) jl by (simp add: is_heap_iff)
      then show "\<not> lt (?ys ! parent j) (?ys ! j)"
        using jl pj j by (simp add: nth_butlast)
    qed
    show "0 < (0::nat) \<and> 0 \<le> parent 0 \<longrightarrow> (\<forall>j. 0 < j \<and> j < length ?ys \<and> parent j = 0 \<longrightarrow> \<not> lt (?ys ! parent 0) (?ys ! j))"
      by simp
  qed
  then show ?thesis using False by (simp add: pop_heap_def is_heap_heap_from)
qed

lemma sift_up_is_heap:
  "strict_weak lt \<Longrightarrow> i < length xs \<Longrightarrow>
   (\<forall>j. 0 < j \<and> j < length xs \<and> j \<noteq> i \<longrightarrow> \<not> lt (xs ! parent j) (xs ! j)) \<Longrightarrow>
   (0 < i \<longrightarrow> (\<forall>j. 0 < j \<and> j < length xs \<and> parent j = i \<longrightarrow> \<not> lt (xs ! parent i) (xs ! j))) \<Longrightarrow>
   is_heap lt (sift_up lt xs i)"
proof (induction lt xs i rule: sift_up.induct)
  case (1 lt xs i)
  note sw = "1.prems"(1) and il = "1.prems"(2) and A = "1.prems"(3) and B = "1.prems"(4)
  have irrefl: "\<And>a. \<not> lt a a" and tr: "\<And>a b c. lt a b \<Longrightarrow> lt b c \<Longrightarrow> lt a c"
    and ntr: "\<And>a b c. \<not> lt a b \<Longrightarrow> \<not> lt b c \<Longrightarrow> \<not> lt a c"
    using sw unfolding strict_weak_def by blast+
  have asym: "\<And>a b. lt a b \<Longrightarrow> \<not> lt b a" using irrefl tr by blast
  show ?case
  proof (cases "i = 0")
    case True
    then show ?thesis using A by (subst sift_up.simps) (simp add: is_heap_iff)
  next
    case i0: False
    let ?p = "parent i"
    have p: "?p < i" "?p < length xs" using i0 il parent_less [of i] by auto
    show ?thesis
    proof (cases "lt (xs ! ?p) (xs ! i)")
      case False
      then have "is_heap lt xs" using A unfolding is_heap_iff by blast
      then show ?thesis using i0 False by (subst sift_up.simps) simp
    next
      case True
      let ?ys = "swap_at xs ?p i"
      have ny: "\<And>j. ?ys ! j = (if j = i then xs ! ?p else if j = ?p then xs ! i else xs ! j)"
        using p il by (simp add: nth_swap_at)
      have A': "\<forall>j. 0 < j \<and> j < length ?ys \<and> j \<noteq> ?p \<longrightarrow> \<not> lt (?ys ! parent j) (?ys ! j)"
      proof (intro allI impI, elim conjE)
        fix j assume j: "0 < j" "j < length ?ys" "j \<noteq> ?p"
        then have jl: "j < length xs" by simp
        have pjj: "parent j < j" using j(1) by (rule parent_less)
        show "\<not> lt (?ys ! parent j) (?ys ! j)"
        proof (cases "j = i")
          case True
          then show ?thesis using \<open>lt (xs ! ?p) (xs ! i)\<close> asym p by (simp add: ny)
        next
          case ji: False
          have old: "\<not> lt (xs ! parent j) (xs ! j)" using A j(1) jl ji by blast
          show ?thesis
          proof (cases "parent j = ?p")
            case True
            have "\<not> lt (xs ! i) (xs ! j)"
            proof
              assume "lt (xs ! i) (xs ! j)"
              with \<open>lt (xs ! ?p) (xs ! i)\<close> have "lt (xs ! ?p) (xs ! j)" by (rule tr)
              with old True show False by simp
            qed
            then show ?thesis using True ji j(3) p by (simp add: ny)
          next
            case pp: False
            show ?thesis
            proof (cases "parent j = i")
              case True
              have "\<not> lt (xs ! ?p) (xs ! j)" using B i0 j(1) jl True by blast
              then show ?thesis using True ji j(3) by (simp add: ny)
            next
              case False
              then show ?thesis using old pp ji j(3) by (simp add: ny)
            qed
          qed
        qed
      qed
      have B': "0 < ?p \<longrightarrow> (\<forall>j. 0 < j \<and> j < length ?ys \<and> parent j = ?p \<longrightarrow> \<not> lt (?ys ! parent ?p) (?ys ! j))"
      proof (intro allI impI, elim conjE)
        fix j assume p0: "0 < ?p" and j: "0 < j" "j < length ?ys" "parent j = ?p"
        have ppp: "parent ?p < ?p" using p0 by (rule parent_less)
        have g: "\<not> lt (xs ! parent ?p) (xs ! ?p)" using A p0 p by auto
        have jp: "j \<noteq> ?p" using parent_less [OF j(1)] j(3) by auto
        have gy: "?ys ! parent ?p = xs ! parent ?p" using ppp p by (simp add: ny)
        show "\<not> lt (?ys ! parent ?p) (?ys ! j)"
        proof (cases "j = i")
          case True
          then show ?thesis using g gy by (simp add: ny)
        next
          case False
          have "\<not> lt (xs ! ?p) (xs ! j)" using A j False by auto
          from ntr [OF g this] show ?thesis using False jp gy by (simp add: ny)
        qed
      qed
      have "is_heap lt (sift_up lt ?ys ?p)"
        using "1.IH" [OF i0 True sw _ A' B'] p by simp
      then show ?thesis using i0 True by (subst sift_up.simps) simp
    qed
  qed
qed

lemma length_push_heap [simp]: "length (push_heap lt xs) = length xs"
  by (simp add: push_heap_def)

lemma mset_push_heap [simp]: "mset (push_heap lt xs) = mset xs"
  by (simp add: push_heap_def)

lemma is_heap_push_heap:
  assumes sw: "strict_weak lt" and h: "is_heap lt (butlast xs)"
  shows "is_heap lt (push_heap lt xs)"
proof (cases "xs = []")
  case True
  then show ?thesis by (simp add: push_heap_def is_heap_def)
next
  case False
  let ?i = "length xs - 1"
  have il: "?i < length xs" using False by simp
  have A: "\<forall>j. 0 < j \<and> j < length xs \<and> j \<noteq> ?i \<longrightarrow> \<not> lt (xs ! parent j) (xs ! j)"
  proof (intro allI impI, elim conjE)
    fix j assume j: "0 < j" "j < length xs" "j \<noteq> ?i"
    then have jb: "j < length (butlast xs)" by simp
    have "parent j < length (butlast xs)" using parent_less [OF j(1)] jb by simp
    then show "\<not> lt (xs ! parent j) (xs ! j)"
      using h j(1) jb by (auto simp: is_heap_iff nth_butlast)
  qed
  have B: "0 < ?i \<longrightarrow> (\<forall>j. 0 < j \<and> j < length xs \<and> parent j = ?i \<longrightarrow> \<not> lt (xs ! parent ?i) (xs ! j))"
    by (auto simp: parent_eq_iff)
  from sift_up_is_heap [OF sw il A B] show ?thesis using False by (simp add: push_heap_def)
qed

subsection \<open>Waiting and collecting\<close>

lemma wait_loop_Inr:
  "wait_loop k s ws = Some (Inr s') \<Longrightarrow>
   s' \<in> set (s # ws) \<and>
   (\<exists>ns. map_of (namespaces s') k = Some ns \<and> HasFinishedRunningTasksInNamespace ns)"
proof (induction ws arbitrary: s)
  case Nil
  then show ?case by (auto split: option.splits if_splits)
next
  case (Cons w ws)
  show ?case
  proof (cases "map_of (namespaces s) k")
    case None
    with Cons.prems show ?thesis by simp
  next
    case (Some ns)
    show ?thesis
    proof (cases "HasFinishedRunningTasksInNamespace ns")
      case True
      with Some Cons.prems show ?thesis by auto
    next
      case False
      with Some Cons.prems have "wait_loop k w ws = Some (Inr s')" by simp
      from Cons.IH [OF this] show ?thesis by auto
    qed
  qed
qed

lemma wait_loop_returns:
  "\<exists>w \<in> set (s # ws). \<forall>ns. map_of (namespaces w) k = Some ns \<longrightarrow> HasFinishedRunningTasksInNamespace ns \<Longrightarrow>
   wait_loop k s ws \<noteq> None"
  by (induction ws arbitrary: s) (auto split: option.splits)

text \<open>
  C7. When \<^verbatim>\<open>WaitForTasksToFinishRunning(token)\<close> returns, either there was no namespace
  for the token, and it returned at once in the state it was called in, or the namespace
  of the token has finished running its tasks in the state of the return: no ready task,
  no running task, no node in its graph.
\<close>

theorem WaitForTasksToFinishRunning_returns_finished:
  "(token \<noteq> 0 \<and> map_of (namespaces s) token = None \<longrightarrow>
      WaitForTasksToFinishRunning token s wakeups = Some (Inr s)) \<and>
   (WaitForTasksToFinishRunning token s wakeups = Some (Inr s') \<longrightarrow>
      (map_of (namespaces s) token = None \<and> s' = s) \<or>
      (\<exists>ns. map_of (namespaces s') token = Some ns \<and>
          HasFinishedRunningTasksInNamespace ns \<and>
          ready_to_run_tasks ns = [] \<and> num_running_tasks ns = 0 \<and> nodes (graph ns) = []))"
proof (intro conjI impI)
  assume "token \<noteq> 0 \<and> map_of (namespaces s) token = None"
  then show "WaitForTasksToFinishRunning token s wakeups = Some (Inr s)"
    by (simp add: WaitForTasksToFinishRunning_def)
next
  assume r: "WaitForTasksToFinishRunning token s wakeups = Some (Inr s')"
  show "(map_of (namespaces s) token = None \<and> s' = s) \<or>
      (\<exists>ns. map_of (namespaces s') token = Some ns \<and>
          HasFinishedRunningTasksInNamespace ns \<and>
          ready_to_run_tasks ns = [] \<and> num_running_tasks ns = 0 \<and> nodes (graph ns) = [])"
  proof (cases "map_of (namespaces s) token")
    case None
    with r show ?thesis
      by (simp add: WaitForTasksToFinishRunning_def split: if_splits)
  next
    case (Some ns0)
    with r have "wait_loop token s wakeups = Some (Inr s')"
      by (simp add: WaitForTasksToFinishRunning_def split: if_splits)
    from wait_loop_Inr [OF this] show ?thesis
      by (auto simp: HasFinishedRunningTasksInNamespace_def)
  qed
qed

theorem WaitForTasksToFinishRunning_returns_finished_witness:
  "WaitForTasksToFinishRunning 1 busy_runner [busy_runner, idle_runner] = Some (Inr idle_runner) \<and>
   WaitForTasksToFinishRunning 2 busy_runner [] = Some (Inr busy_runner) \<and>
   HasFinishedRunningTasksInNamespace (new_TaskNamespace\<lparr>completed_tasks := [7]\<rparr>)"
  using WaitForTasksToFinishRunning_returns_finished [of 1 busy_runner "[busy_runner, idle_runner]" idle_runner]
    WaitForTasksToFinishRunning_returns_finished [of 2 busy_runner "[]" busy_runner]
  by (simp add: WaitForTasksToFinishRunning_def busy_runner_def idle_runner_def
      HasFinishedRunningTasksInNamespace_def new_TaskNamespace_def)

text \<open>
  C6. \<^verbatim>\<open>CollectCompletedTasks(token, out)\<close>: without a namespace for the token it leaves
  the state and \<open>out\<close> as they are. With a namespace, \<open>out\<close> must be empty (the check fails
  otherwise); the completed tasks of the namespace are handed out and the namespace keeps
  an empty queue; the namespace is erased from the map exactly when it has then finished
  running its tasks (no ready task, no running task, no node in its graph). Nothing else
  changes.
\<close>

theorem CollectCompletedTasks_swaps_and_erases:
  assumes "token \<noteq> 0"
  shows "(map_of (namespaces s) token = None \<longrightarrow>
            CollectCompletedTasks token out s = Inr (s, out)) \<and>
         (\<forall>ns. map_of (namespaces s) token = Some ns \<longrightarrow>
            (out \<noteq> [] \<longrightarrow> CollectCompletedTasks token out s = Inl OutputNotEmpty) \<and>
            (\<exists>s'. CollectCompletedTasks token [] s = Inr (s', completed_tasks ns) \<and>
               (map_of (namespaces s') token = None \<longleftrightarrow>
                  HasFinishedRunningTasksInNamespace (ns\<lparr>completed_tasks := []\<rparr>)) \<and>
               (map_of (namespaces s') token = None \<longleftrightarrow>
                  ready_to_run_tasks ns = [] \<and> num_running_tasks ns = 0 \<and>
                  nodes (graph ns) = []) \<and>
               (map_of (namespaces s') token \<noteq> None \<longrightarrow>
                  map_of (namespaces s') token = Some (ns\<lparr>completed_tasks := []\<rparr>)) \<and>
               (\<forall>k. k \<noteq> token \<longrightarrow> map_of (namespaces s') k = map_of (namespaces s) k) \<and>
               ready_to_run_namespaces s' = ready_to_run_namespaces s \<and>
               running_tasks s' = running_tasks s \<and> did_run s' = did_run s))"
proof (intro conjI impI allI)
  assume "map_of (namespaces s) token = None"
  then show "CollectCompletedTasks token out s = Inr (s, out)"
    using assms by (simp add: CollectCompletedTasks_def)
next
  fix ns assume "map_of (namespaces s) token = Some ns" "out \<noteq> []"
  then show "CollectCompletedTasks token out s = Inl OutputNotEmpty"
    using assms by (simp add: CollectCompletedTasks_def)
next
  fix ns assume ns: "map_of (namespaces s) token = Some ns"
  let ?ns' = "ns\<lparr>completed_tasks := []\<rparr>"
  let ?s' = "s\<lparr>namespaces :=
                (if HasFinishedRunningTasksInNamespace ?ns' then AList.delete token (namespaces s)
                 else AList.update token ?ns' (namespaces s))\<rparr>"
  have "CollectCompletedTasks token [] s = Inr (?s', completed_tasks ns)"
    using assms ns by (simp add: CollectCompletedTasks_def Let_def)
  moreover have "map_of (namespaces ?s') token = None \<longleftrightarrow> HasFinishedRunningTasksInNamespace ?ns'"
    by (simp add: delete_conv' update_conv')
  moreover have "HasFinishedRunningTasksInNamespace ?ns' \<longleftrightarrow>
      ready_to_run_tasks ns = [] \<and> num_running_tasks ns = 0 \<and> nodes (graph ns) = []"
    by (simp add: HasFinishedRunningTasksInNamespace_def)
  moreover have "map_of (namespaces ?s') token \<noteq> None \<longrightarrow> map_of (namespaces ?s') token = Some ?ns'"
    by (simp add: delete_conv' update_conv')
  moreover have "\<forall>k. k \<noteq> token \<longrightarrow> map_of (namespaces ?s') k = map_of (namespaces s) k"
    by (simp add: delete_conv' update_conv')
  ultimately show "\<exists>s'. CollectCompletedTasks token [] s = Inr (s', completed_tasks ns) \<and>
               (map_of (namespaces s') token = None \<longleftrightarrow>
                  HasFinishedRunningTasksInNamespace (ns\<lparr>completed_tasks := []\<rparr>)) \<and>
               (map_of (namespaces s') token = None \<longleftrightarrow>
                  ready_to_run_tasks ns = [] \<and> num_running_tasks ns = 0 \<and>
                  nodes (graph ns) = []) \<and>
               (map_of (namespaces s') token \<noteq> None \<longrightarrow>
                  map_of (namespaces s') token = Some (ns\<lparr>completed_tasks := []\<rparr>)) \<and>
               (\<forall>k. k \<noteq> token \<longrightarrow> map_of (namespaces s') k = map_of (namespaces s) k) \<and>
               ready_to_run_namespaces s' = ready_to_run_namespaces s \<and>
               running_tasks s' = running_tasks s \<and> did_run s' = did_run s"
    by (intro exI [of _ ?s']) simp
qed

theorem CollectCompletedTasks_swaps_and_erases_witness:
  "(1::int) \<noteq> 0 \<and>
   map_of (namespaces idle_runner) 1 = Some (new_TaskNamespace\<lparr>completed_tasks := [7]\<rparr>) \<and>
   map_of (namespaces idle_runner) 2 = None \<and>
   CollectCompletedTasks 1 [] idle_runner = Inr (idle_runner\<lparr>namespaces := []\<rparr>, [7]) \<and>
   CollectCompletedTasks 1 [] busy_runner = Inr (busy_runner, []) \<and>
   CollectCompletedTasks 1 [3] idle_runner = Inl OutputNotEmpty \<and>
   CollectCompletedTasks 2 [3] idle_runner = Inr (idle_runner, [3])"
  using CollectCompletedTasks_swaps_and_erases [of 1 idle_runner "[3]"]
    CollectCompletedTasks_swaps_and_erases [of 2 idle_runner "[3]"]
  by (simp add: CollectCompletedTasks_def busy_runner_def idle_runner_def
      HasFinishedRunningTasksInNamespace_def new_TaskNamespace_def)

subsection \<open>Looking up nodes\<close>

lemma find_node_Some:
  "find_node ns t = Some i \<Longrightarrow>
   i < length ns \<and> Node.task (ns ! i) = t \<and> (\<forall>j<i. Node.task (ns ! j) \<noteq> t)"
proof (induction ns arbitrary: i)
  case Nil
  then show ?case by simp
next
  case (Cons n ns)
  show ?case
  proof (cases "Node.task n = t")
    case True
    with Cons.prems show ?thesis by simp
  next
    case False
    with Cons.prems obtain i' where i': "find_node ns t = Some i'" "i = Suc i'" by auto
    from Cons.IH [OF i'(1)] False i'(2) show ?thesis
      by (auto simp: nth_Cons split: nat.splits)
  qed
qed

lemma find_node_None: "find_node ns t = None \<longleftrightarrow> t \<notin> Node.task ` set ns"
  by (induction ns) auto



lemma find_node_cong:
  "map Node.task ns = map Node.task ms \<Longrightarrow> find_node ns t = find_node ms t"
proof (induction ns arbitrary: ms)
  case Nil
  then show ?case by simp
next
  case (Cons n ns)
  then obtain m ms' where ms: "ms = m # ms'" by (cases ms) auto
  with Cons.prems have "Node.task n = Node.task m" "map Node.task ns = map Node.task ms'" by auto
  with Cons.IH [of ms'] ms show ?case by simp
qed

subsection \<open>The discount of the completed tasks\<close>

lemma unat_minus_one': "(w :: u32) \<noteq> 0 \<Longrightarrow> Suc (unat (w - 1)) = unat w"
  by (simp add: unat_minus_one unat_gt_0)

lemma decrement_dependent_Inr:
  assumes "decrement_dependent ns d = Inr ns'"
  obtains i where "find_node ns d = Some i" "dependencies (ns ! i) \<noteq> 0"
    "ns' = ns[i := (ns ! i)\<lparr>dependencies := dependencies (ns ! i) - 1\<rparr>]"
  using assms by (auto simp: decrement_dependent_def split: option.splits if_splits)

lemma decrement_dependent_tasks:
  assumes "decrement_dependent ns d = Inr ns'"
  shows "map Node.task ns' = map Node.task ns" and "map Node.priority ns' = map Node.priority ns"
    and "length ns' = length ns"
proof -
  from assms obtain i where i: "find_node ns d = Some i"
    "ns' = ns[i := (ns ! i)\<lparr>dependencies := dependencies (ns ! i) - 1\<rparr>]"
    by (rule decrement_dependent_Inr)
  show "map Node.task ns' = map Node.task ns" "map Node.priority ns' = map Node.priority ns"
    using find_node_Some [OF i(1)] by (simp_all add: i(2) map_update list_update_same_conv)
  show "length ns' = length ns" by (simp add: i(2))
qed

lemma decrement_dependent_count:
  assumes "decrement_dependent ns d = Inr ns'" and "i < length ns"
  shows "unat (dependencies (ns' ! i)) +
           (if find_node ns (Node.task (ns ! i)) = Some i \<and> d = Node.task (ns ! i) then 1 else 0)
         = unat (dependencies (ns ! i))"
proof -
  from assms(1) obtain j where j: "find_node ns d = Some j" "dependencies (ns ! j) \<noteq> 0"
    "ns' = ns[j := (ns ! j)\<lparr>dependencies := dependencies (ns ! j) - 1\<rparr>]"
    by (rule decrement_dependent_Inr)
  from find_node_Some [OF j(1)] have jl: "j < length ns" and jt: "Node.task (ns ! j) = d" by auto
  show ?thesis
  proof (cases "i = j")
    case True
    then show ?thesis using j jl jt unat_minus_one' [OF j(2)] by simp
  next
    case False
    then have "\<not> (find_node ns (Node.task (ns ! i)) = Some i \<and> d = Node.task (ns ! i))"
      using j(1) by auto
    then show ?thesis using False j(3) by simp
  qed
qed

lemma discount_task_tasks:
  "discount_task es t ns = Inr ns' \<Longrightarrow>
   map Node.task ns' = map Node.task ns \<and> map Node.priority ns' = map Node.priority ns \<and>
   length ns' = length ns"
proof (induction es arbitrary: ns)
  case Nil
  then show ?case by simp
next
  case (Cons e es)
  show ?case
  proof (cases "Edge.task e = t")
    case True
    with Cons.prems obtain ns1 where ns1: "decrement_dependent ns (dependent e) = Inr ns1"
      "discount_task es t ns1 = Inr ns'"
      by (auto split: sum.splits)
    from Cons.IH [OF ns1(2)] decrement_dependent_tasks [OF ns1(1)] show ?thesis by simp
  next
    case False
    with Cons.prems Cons.IH show ?thesis by simp
  qed
qed

lemma edge_count_Cons:
  "edge_count (e # es) t d =
     (if Edge.task e = t \<and> dependent e = d then 1 else 0) + edge_count es t d"
  by (simp add: edge_count_def)

lemma discount_task_count:
  "discount_task es t ns = Inr ns' \<Longrightarrow> i < length ns \<Longrightarrow>
   unat (dependencies (ns' ! i)) +
     (if find_node ns (Node.task (ns ! i)) = Some i then edge_count es t (Node.task (ns ! i)) else 0)
   = unat (dependencies (ns ! i))"
proof (induction es arbitrary: ns)
  case Nil
  then show ?case by (simp add: edge_count_def)
next
  case (Cons e es)
  show ?case
  proof (cases "Edge.task e = t")
    case True
    with Cons.prems obtain ns1 where ns1: "decrement_dependent ns (dependent e) = Inr ns1"
      "discount_task es t ns1 = Inr ns'"
      by (auto split: sum.splits)
    note tk = decrement_dependent_tasks [OF ns1(1)]
    have i1: "i < length ns1" using tk(3) Cons.prems(2) by simp
    have same: "Node.task (ns1 ! i) = Node.task (ns ! i)"
      using tk(1) Cons.prems(2) by (metis nth_map tk(3))
    have fn: "find_node ns1 (Node.task (ns ! i)) = find_node ns (Node.task (ns ! i))"
      using tk(1) by (rule find_node_cong)
    from Cons.IH [OF ns1(2) i1] decrement_dependent_count [OF ns1(1) Cons.prems(2)] True
    show ?thesis by (auto simp: edge_count_Cons same fn)
  next
    case False
    with Cons.prems Cons.IH [of ns] show ?thesis by (auto simp: edge_count_Cons)
  qed
qed

lemma discount_completed_tasks:
  "discount_completed cs es ns = Inr ns' \<Longrightarrow>
   map Node.task ns' = map Node.task ns \<and> map Node.priority ns' = map Node.priority ns \<and>
   length ns' = length ns"
proof (induction cs arbitrary: ns)
  case Nil
  then show ?case by simp
next
  case (Cons t ts)
  then obtain ns1 where ns1: "discount_task es t ns = Inr ns1" "discount_completed ts es ns1 = Inr ns'"
    by (auto split: sum.splits)
  from Cons.IH [OF ns1(2)] discount_task_tasks [OF ns1(1)] show ?case by simp
qed

lemma discount_completed_count:
  "discount_completed cs es ns = Inr ns' \<Longrightarrow> i < length ns \<Longrightarrow>
   unat (dependencies (ns' ! i)) +
     (if find_node ns (Node.task (ns ! i)) = Some i then discounts cs es (Node.task (ns ! i)) else 0)
   = unat (dependencies (ns ! i))"
proof (induction cs arbitrary: ns)
  case Nil
  then show ?case by (simp add: discounts_def)
next
  case (Cons t ts)
  then obtain ns1 where ns1: "discount_task es t ns = Inr ns1" "discount_completed ts es ns1 = Inr ns'"
    by (auto split: sum.splits)
  note tk = discount_task_tasks [OF ns1(1)]
  have i1: "i < length ns1" using tk Cons.prems(2) by simp
  have same: "Node.task (ns1 ! i) = Node.task (ns ! i)"
    using tk Cons.prems(2) by (metis nth_map)
  have fn: "find_node ns1 (Node.task (ns ! i)) = find_node ns (Node.task (ns ! i))"
    using tk by (intro find_node_cong) simp
  from Cons.IH [OF ns1(2) i1] discount_task_count [OF ns1(1) Cons.prems(2)]
  show ?case by (auto simp: discounts_def same fn)
qed

lemma discounts_Cons_edge:
  "discounts cs (e # es) d =
     (if dependent e = d then count_list cs (Edge.task e) else 0) + discounts cs es d"
  by (induction cs) (auto simp: discounts_def edge_count_Cons)

lemma in_degree_le_discounts:
  "\<forall>e\<in>set es. dependent e = d \<longrightarrow> Edge.task e \<in> set cs \<Longrightarrow> in_degree es d \<le> discounts cs es d"
proof (induction es)
  case Nil
  then show ?case by (simp add: in_degree_def)
next
  case (Cons e es)
  have "dependent e = d \<Longrightarrow> 0 < count_list cs (Edge.task e)"
    using Cons.prems count_list_0_iff [of cs "Edge.task e"] by auto
  moreover have "in_degree es d \<le> discounts cs es d" using Cons by simp
  ultimately show ?case
    by (auto simp: discounts_Cons_edge in_degree_def)
qed


subsection \<open>The loops of SetTaskGraph\<close>

lemma cancel_tasks_eq:
  "cancel_tasks dr rt ns completed = completed @ map Node.task (filter (cancelable dr rt) ns)"
  by (induction ns arbitrary: completed) (simp_all add: cancelable_def)

lemma snd_build_ready:
  "snd (build_ready dr rt ns old ready) = ready @ map prioritized (filter (runnable dr rt) ns)"
  by (induction ns arbitrary: old ready) (simp_all add: runnable_def prioritized_def Let_def)

lemma fst_build_ready:
  "fst (build_ready dr rt ns old ready) = fold (\<lambda>n old. remove_old_node old (Node.task n)) ns old"
  by (induction ns arbitrary: old ready) (simp_all add: Let_def)

lemma mset_butlast_update_last:
  assumes "i < length xs"
  shows "mset (butlast (xs[i := last xs])) = mset xs - {#xs ! i#}"
proof -
  from assms have ne: "xs \<noteq> []" by auto
  then obtain ys z where xs: "xs = ys @ [z]" by (cases xs rule: rev_cases) auto
  show ?thesis
  proof (cases "i < length ys")
    case True
    then have "butlast (xs[i := last xs]) = ys[i := z]"
      by (simp add: xs list_update_append1)
    moreover have "xs ! i = ys ! i" using True by (simp add: xs nth_append)
    moreover have "ys ! i \<in># mset ys" using True by simp
    ultimately show ?thesis using True by (simp add: xs mset_update)
  next
    case False
    with assms have i: "i = length ys" by (simp add: xs)
    then show ?thesis by (simp add: xs)
  qed
qed

lemma mset_remove_old_node:
  "mset (remove_old_node old t) =
     (case find_node old t of None \<Rightarrow> mset old | Some i \<Rightarrow> mset old - {#old ! i#})"
  by (auto simp: remove_old_node_def mset_butlast_update_last dest: find_node_Some
      split: option.splits)

lemma set_remove_old_node_subset: "set (remove_old_node old t) \<subseteq> set old"
proof -
  have "mset (remove_old_node old t) \<subseteq># mset old"
    by (simp add: mset_remove_old_node split: option.splits)
  then have "set_mset (mset (remove_old_node old t)) \<subseteq> set_mset (mset old)"
    by (rule set_mset_mono)
  then show ?thesis by simp
qed

lemma remove_old_node_keeps:
  assumes "n \<in> set old" and "Node.task n \<noteq> t"
  shows "n \<in> set (remove_old_node old t)"
proof (cases "find_node old t")
  case None
  then show ?thesis using assms by (simp add: remove_old_node_def)
next
  case (Some i)
  from find_node_Some [OF Some] assms(2) have "old ! i \<noteq> n" by auto
  moreover have "n \<in># mset old" using assms(1) by simp
  ultimately have "n \<in># mset old - {#old ! i#}" by (simp add: in_diff_count)
  then have "n \<in># mset (remove_old_node old t)" by (simp add: mset_remove_old_node Some)
  then show ?thesis by simp
qed

lemma fold_remove_subset:
  "set (fold (\<lambda>n old. remove_old_node old (Node.task n)) ns old) \<subseteq> set old"
proof (induction ns arbitrary: old)
  case Nil
  then show ?case by simp
next
  case (Cons n ns)
  from Cons.IH [of "remove_old_node old (Node.task n)"] set_remove_old_node_subset [of old "Node.task n"]
  show ?case by auto
qed

lemma fold_remove_keeps:
  "n \<in> set old \<Longrightarrow> Node.task n \<notin> Node.task ` set ns \<Longrightarrow>
   n \<in> set (fold (\<lambda>n old. remove_old_node old (Node.task n)) ns old)"
proof (induction ns arbitrary: old)
  case Nil
  then show ?case by simp
next
  case (Cons m ns)
  have "n \<in> set (remove_old_node old (Node.task m))"
    using Cons.prems by (intro remove_old_node_keeps) auto
  from Cons.IH [OF this] Cons.prems(2) show ?case by simp
qed

subsection \<open>What SetTaskGraph returns\<close>

lemma set_namespace_graph_Inr:
  assumes "set_namespace_graph dr rt g old = Inr (ns', g')"
  obtains new_nodes where
    "discount_completed (completed_tasks old) (edges g) (nodes g) = Inr new_nodes"
    "graph ns' = \<lparr>nodes = new_nodes, edges = edges g\<rparr>"
    "ready_to_run_tasks ns' =
       make_heap CompareTaskPriority (map prioritized (filter (runnable dr rt) new_nodes))"
    "nodes g' = fold (\<lambda>n old. remove_old_node old (Node.task n)) new_nodes (nodes (graph old))"
    "edges g' = edges (graph old)"
    "completed_tasks ns' =
       completed_tasks old @ map Node.task (filter (cancelable dr rt) (nodes g'))"
    "num_running_tasks ns' = num_running_tasks old"
proof -
  from assms obtain new_nodes where
    d: "discount_completed (completed_tasks old) (edges g) (nodes g) = Inr new_nodes"
    by (auto simp: set_namespace_graph_def split: sum.splits)
  with assms have eq: "ns' = old
       \<lparr>graph := \<lparr>nodes = new_nodes, edges = edges g\<rparr>,
        ready_to_run_tasks := make_heap CompareTaskPriority
           (snd (build_ready dr rt new_nodes (nodes (graph old)) [])),
        completed_tasks := cancel_tasks dr rt
           (fst (build_ready dr rt new_nodes (nodes (graph old)) [])) (completed_tasks old)\<rparr>"
    and g': "g' = \<lparr>nodes = fst (build_ready dr rt new_nodes (nodes (graph old)) []),
                   edges = edges (graph old)\<rparr>"
    by (simp_all add: set_namespace_graph_def Let_def)
  show ?thesis
  proof (rule that [OF d])
    show "graph ns' = \<lparr>nodes = new_nodes, edges = edges g\<rparr>" by (simp add: eq)
    show "ready_to_run_tasks ns' =
       make_heap CompareTaskPriority (map prioritized (filter (runnable dr rt) new_nodes))"
      by (simp add: eq snd_build_ready)
    show "nodes g' = fold (\<lambda>n old. remove_old_node old (Node.task n)) new_nodes (nodes (graph old))"
      by (simp add: g' fst_build_ready)
    show "edges g' = edges (graph old)" by (simp add: g')
    show "completed_tasks ns' =
       completed_tasks old @ map Node.task (filter (cancelable dr rt) (nodes g'))"
      by (simp add: eq g' cancel_tasks_eq)
    show "num_running_tasks ns' = num_running_tasks old" by (simp add: eq)
  qed
qed

lemma map_of_delete_append:
  "map_of (AList.delete k al @ [(k, v)]) k' = (if k' = k then Some v else map_of al k')"
  by (simp add: map_add_def delete_conv' split: option.splits)

lemma SetTaskGraph_Inr:
  assumes "SetTaskGraph token g s = Inr (s', g')"
  obtains ns' where "token \<noteq> 0"
    "set_namespace_graph (did_run s) (running_tasks s) g (take_namespace (namespaces s) token)
       = Inr (ns', g')"
    "namespaces s' = AList.delete token (namespaces s) @ [(token, ns')]"
    "ready_to_run_namespaces s' =
       make_heap (CompareTaskNamespacePriority (namespaces s')) (ready_namespaces (namespaces s'))"
    "running_tasks s' = running_tasks s"
    "did_run s' = did_run s"
    "map_of (namespaces s') token = Some ns'"
proof -
  from assms have t: "token \<noteq> 0" by (auto simp: SetTaskGraph_def split: if_splits)
  with assms obtain ns' where
    n: "set_namespace_graph (did_run s) (running_tasks s) g (take_namespace (namespaces s) token)
       = Inr (ns', g')"
    by (auto simp: SetTaskGraph_def Let_def split: sum.splits)
  with assms t have s': "s' = s\<lparr>namespaces := AList.delete token (namespaces s) @ [(token, ns')],
      ready_to_run_namespaces :=
        make_heap (CompareTaskNamespacePriority (AList.delete token (namespaces s) @ [(token, ns')]))
          (ready_namespaces (AList.delete token (namespaces s) @ [(token, ns')]))\<rparr>"
    by (simp add: SetTaskGraph_def Let_def)
  show ?thesis
    by (rule that [OF t n]) (simp_all add: s' map_add_def delete_conv')
qed

lemma strict_weak_key: "strict_weak (\<lambda>a b. (f b :: 'k :: linorder) < f a)"
  by (auto simp: strict_weak_def)

lemma strict_weak_CompareTaskPriority: "strict_weak CompareTaskPriority"
  unfolding CompareTaskPriority_def by (rule strict_weak_key)

lemma strict_weak_CompareTaskNamespacePriority:
  "strict_weak (CompareTaskNamespacePriority nss)"
  unfolding CompareTaskNamespacePriority_def CompareTaskPriority_def
  by (rule strict_weak_key)


subsection \<open>Evaluating the heap algorithms on short lists\<close>

lemma make_heap_Nil [simp]: "make_heap lt [] = []"
  by (simp add: make_heap_def)

lemma make_heap_single [simp]: "make_heap lt [x] = [x]"
  by (simp add: make_heap_def)

lemma make_heap_two:
  "make_heap lt [x, y] = (if lt x y then [y, x] else [x, y])"
  by (simp add: make_heap_def sift_down.simps [of lt "[x, y]"] sift_down.simps [of lt "[y, x]"]
      swap_at_def)

lemma pop_heap_single [simp]: "pop_heap lt [x] = [x]"
  by (simp add: pop_heap_def)

lemma pop_heap_two [simp]: "pop_heap lt [x, y] = [y, x]"
  by (simp add: pop_heap_def sift_down.simps [of lt "[y]"])

lemma push_heap_single [simp]: "push_heap lt [x] = [x]"
  by (simp add: push_heap_def sift_up.simps [of lt "[x]"])

lemma push_heap_two:
  "push_heap lt [x, y] = (if lt x y then [y, x] else [x, y])"
  by (simp add: push_heap_def sift_up.simps [of lt "[x, y]" "Suc 0"] sift_up.simps [of lt _ 0]
      swap_at_def parent_def)

subsection \<open>SetTaskGraph: cancellation, discount and the ready queue\<close>

text \<open>
  C1. After \<^verbatim>\<open>SetTaskGraph(token, g)\<close> the completed tasks of the namespace are the
  former ones followed by appended tasks \<open>app\<close>: every task that had a node in the old
  graph and has none in \<open>g\<close>, has not finished running and is in no slot of
  \<^verbatim>\<open>running_tasks_\<close> is among them; every task among them comes from a node of the old
  graph, has not finished running and is in no slot; and no \<^verbatim>\<open>did_run_\<close> flag changes,
  so none of them was run.
\<close>

theorem SetTaskGraph_cancels:
  assumes "SetTaskGraph token g s = Inr (s', g')"
  shows "\<exists>ns' app.
           map_of (namespaces s') token = Some ns' \<and>
           completed_tasks ns' = completed_tasks (take_namespace (namespaces s) token) @ app \<and>
           (\<forall>t. t \<in> Node.task ` set (nodes (graph (take_namespace (namespaces s) token))) \<and>
                t \<notin> Node.task ` set (nodes g) \<and>
                \<not> did_run s t \<and> \<not> is_running (running_tasks s) t \<longrightarrow> t \<in> set app) \<and>
           (\<forall>t\<in>set app.
                t \<in> Node.task ` set (nodes (graph (take_namespace (namespaces s) token))) \<and>
                \<not> did_run s t \<and> \<not> is_running (running_tasks s) t \<and> \<not> did_run s' t) \<and>
           did_run s' = did_run s \<and> running_tasks s' = running_tasks s"
proof -
  let ?old = "take_namespace (namespaces s) token"
  from assms obtain ns' where
    n: "set_namespace_graph (did_run s) (running_tasks s) g ?old = Inr (ns', g')"
    and m: "map_of (namespaces s') token = Some ns'"
    and dr: "did_run s' = did_run s" and rt: "running_tasks s' = running_tasks s"
    by (rule SetTaskGraph_Inr)
  from n obtain new_nodes where
    d: "discount_completed (completed_tasks ?old) (edges g) (nodes g) = Inr new_nodes"
    and g': "nodes g' = fold (\<lambda>n old. remove_old_node old (Node.task n)) new_nodes (nodes (graph ?old))"
    and c: "completed_tasks ns' =
       completed_tasks ?old @ map Node.task (filter (cancelable (did_run s) (running_tasks s)) (nodes g'))"
    by (rule set_namespace_graph_Inr)
  let ?app = "map Node.task (filter (cancelable (did_run s) (running_tasks s)) (nodes g'))"
  have tasks: "Node.task ` set new_nodes = Node.task ` set (nodes g)"
    using discount_completed_tasks [OF d] by (metis set_map)
  have sub: "set (nodes g') \<subseteq> set (nodes (graph ?old))"
    unfolding g' by (rule fold_remove_subset)
  have a: "\<forall>t. t \<in> Node.task ` set (nodes (graph ?old)) \<and> t \<notin> Node.task ` set (nodes g) \<and>
                \<not> did_run s t \<and> \<not> is_running (running_tasks s) t \<longrightarrow> t \<in> set ?app"
  proof (intro allI impI, elim conjE)
    fix t assume t: "t \<in> Node.task ` set (nodes (graph ?old))" "t \<notin> Node.task ` set (nodes g)"
      "\<not> did_run s t" "\<not> is_running (running_tasks s) t"
    from t(1) obtain n where n: "n \<in> set (nodes (graph ?old))" "Node.task n = t" by auto
    have "n \<in> set (nodes g')"
      unfolding g' using n t(2) tasks by (intro fold_remove_keeps) auto
    then show "t \<in> set ?app" using n(2) t(3,4) by (auto simp: cancelable_def)
  qed
  have b: "\<forall>t\<in>set ?app. t \<in> Node.task ` set (nodes (graph ?old)) \<and>
                \<not> did_run s t \<and> \<not> is_running (running_tasks s) t \<and> \<not> did_run s' t"
    using sub dr by (auto simp: cancelable_def)
  from m c a b dr rt show ?thesis by blast
qed

theorem SetTaskGraph_cancels_witness:
  "SetTaskGraph 1 graph_3 submitted_1_2 = Inr (submitted_3, graph_1_2) \<and>
   map_of (namespaces submitted_3) 1 =
     Some \<lparr>graph = graph_3, ready_to_run_tasks = [\<lparr>PrioritizedTask.task = 3, priority = 0\<rparr>],
           completed_tasks = [1, 2], num_running_tasks = 0\<rparr> \<and>
   did_run submitted_3 1 = False \<and> did_run submitted_3 2 = False"
proof -
  have h: "SetTaskGraph 1 graph_3 submitted_1_2 = Inr (submitted_3, graph_1_2)"
    by (simp add: SetTaskGraph_def set_namespace_graph_def take_namespace_def submitted_1_2_def
        submitted_3_def graph_3_def graph_1_2_def node_def edge_def Let_def remove_old_node_def
        is_running_def ready_namespaces_def)
  from SetTaskGraph_cancels [OF h] h show ?thesis
    by (simp add: submitted_3_def)
qed

text \<open>
  C3. \<^verbatim>\<open>SetTaskGraph(token, g)\<close> installs the nodes of \<open>g\<close> with the same tasks and
  priorities, and with counters lowered by the discount: for the (first) node of a task
  \<open>d\<close>, by one for every pair of an entry \<open>t\<close> of the old completed tasks and an edge
  from \<open>t\<close> to \<open>d\<close> in \<open>g\<close>, without wrapping around. So a node whose counter was the
  number of its incoming edges, all of them from completed tasks, has counter zero, and
  is on the ready queue unless its task has finished running or is running.
\<close>

theorem SetTaskGraph_discounts_completed:
  assumes "SetTaskGraph token g s = Inr (s', g')"
  shows "\<exists>ns'. map_of (namespaces s') token = Some ns' \<and>
           edges (graph ns') = edges g \<and>
           length (nodes (graph ns')) = length (nodes g) \<and>
           (\<forall>i<length (nodes g).
              Node.task (nodes (graph ns') ! i) = Node.task (nodes g ! i) \<and>
              Node.priority (nodes (graph ns') ! i) = Node.priority (nodes g ! i) \<and>
              unat (dependencies (nodes (graph ns') ! i)) +
                (if find_node (nodes g) (Node.task (nodes g ! i)) = Some i
                 then discounts (completed_tasks (take_namespace (namespaces s) token)) (edges g)
                        (Node.task (nodes g ! i))
                 else 0)
              = unat (dependencies (nodes g ! i)) \<and>
              (find_node (nodes g) (Node.task (nodes g ! i)) = Some i \<and>
               unat (dependencies (nodes g ! i)) = in_degree (edges g) (Node.task (nodes g ! i)) \<and>
               (\<forall>e\<in>set (edges g). dependent e = Node.task (nodes g ! i) \<longrightarrow>
                  Edge.task e \<in> set (completed_tasks (take_namespace (namespaces s) token)))
               \<longrightarrow> dependencies (nodes (graph ns') ! i) = 0 \<and>
                   (\<not> did_run s (Node.task (nodes g ! i)) \<and>
                    \<not> is_running (running_tasks s) (Node.task (nodes g ! i))
                    \<longrightarrow> prioritized (nodes g ! i) \<in> set (ready_to_run_tasks ns'))))"
proof -
  let ?old = "take_namespace (namespaces s) token"
  from assms obtain ns' where
    n: "set_namespace_graph (did_run s) (running_tasks s) g ?old = Inr (ns', g')"
    and m: "map_of (namespaces s') token = Some ns'"
    by (rule SetTaskGraph_Inr)
  from n obtain new_nodes where
    d: "discount_completed (completed_tasks ?old) (edges g) (nodes g) = Inr new_nodes"
    and gr: "graph ns' = \<lparr>nodes = new_nodes, edges = edges g\<rparr>"
    and r: "ready_to_run_tasks ns' =
       make_heap CompareTaskPriority
         (map prioritized (filter (runnable (did_run s) (running_tasks s)) new_nodes))"
    by (rule set_namespace_graph_Inr)
  note tk = discount_completed_tasks [OF d]
  have per_node: "Node.task (new_nodes ! i) = Node.task (nodes g ! i) \<and>
      Node.priority (new_nodes ! i) = Node.priority (nodes g ! i) \<and>
      unat (dependencies (new_nodes ! i)) +
        (if find_node (nodes g) (Node.task (nodes g ! i)) = Some i
         then discounts (completed_tasks ?old) (edges g) (Node.task (nodes g ! i)) else 0)
      = unat (dependencies (nodes g ! i)) \<and>
      (find_node (nodes g) (Node.task (nodes g ! i)) = Some i \<and>
       unat (dependencies (nodes g ! i)) = in_degree (edges g) (Node.task (nodes g ! i)) \<and>
       (\<forall>e\<in>set (edges g). dependent e = Node.task (nodes g ! i) \<longrightarrow>
          Edge.task e \<in> set (completed_tasks ?old))
       \<longrightarrow> dependencies (new_nodes ! i) = 0 \<and>
           (\<not> did_run s (Node.task (nodes g ! i)) \<and>
            \<not> is_running (running_tasks s) (Node.task (nodes g ! i))
            \<longrightarrow> prioritized (nodes g ! i) \<in> set (ready_to_run_tasks ns')))"
    if i: "i < length (nodes g)" for i
  proof -
    have t: "Node.task (new_nodes ! i) = Node.task (nodes g ! i)"
      using tk i by (metis nth_map)
    have p: "Node.priority (new_nodes ! i) = Node.priority (nodes g ! i)"
      using tk i by (metis nth_map)
    note c = discount_completed_count [OF d i]
    have z: "dependencies (new_nodes ! i) = 0 \<and>
           (\<not> did_run s (Node.task (nodes g ! i)) \<and>
            \<not> is_running (running_tasks s) (Node.task (nodes g ! i))
            \<longrightarrow> prioritized (nodes g ! i) \<in> set (ready_to_run_tasks ns'))"
      if f: "find_node (nodes g) (Node.task (nodes g ! i)) = Some i"
        and deg: "unat (dependencies (nodes g ! i)) = in_degree (edges g) (Node.task (nodes g ! i))"
        and src: "\<forall>e\<in>set (edges g). dependent e = Node.task (nodes g ! i) \<longrightarrow>
          Edge.task e \<in> set (completed_tasks ?old)"
    proof -
      from in_degree_le_discounts [OF src] c f deg
      have "unat (dependencies (new_nodes ! i)) = 0" by simp
      then have z0: "dependencies (new_nodes ! i) = 0" by (simp add: unat_eq_0)
      have mem: "new_nodes ! i \<in> set new_nodes" using tk i by simp
      have pr: "prioritized (new_nodes ! i) = prioritized (nodes g ! i)"
        by (simp add: prioritized_def t p)
      have "prioritized (nodes g ! i) \<in> set (ready_to_run_tasks ns')"
        if "\<not> did_run s (Node.task (nodes g ! i))"
          "\<not> is_running (running_tasks s) (Node.task (nodes g ! i))"
      proof -
        have "runnable (did_run s) (running_tasks s) (new_nodes ! i)"
          using that z0 t by (simp add: runnable_def)
        with mem have "prioritized (new_nodes ! i) \<in>
            set (map prioritized (filter (runnable (did_run s) (running_tasks s)) new_nodes))"
          by simp
        also have "\<dots> = set_mset (mset (ready_to_run_tasks ns'))"
          unfolding r by simp
        finally show ?thesis by (simp add: pr)
      qed
      with z0 show ?thesis by blast
    qed
    from t p c z show ?thesis by blast
  qed
  have "edges (graph ns') = edges g" "length (nodes (graph ns')) = length (nodes g)"
    using gr tk by simp_all
  moreover have "nodes (graph ns') = new_nodes" by (simp add: gr)
  ultimately show ?thesis using m per_node by (intro exI [of _ ns']) simp
qed

theorem SetTaskGraph_discounts_completed_witness:
  "SetTaskGraph 1 graph_1_2 ran_1 = Inr (ran_1_submitted_1_2, \<lparr>nodes = [], edges = []\<rparr>) \<and>
   find_node (nodes graph_1_2) 2 = Some 1 \<and>
   discounts [1] (edges graph_1_2) 2 = 1 \<and> in_degree (edges graph_1_2) 2 = 1 \<and>
   map dependencies (nodes graph_1_2) = [0, 1] \<and>
   map (map dependencies \<circ> nodes \<circ> graph \<circ> snd) (namespaces ran_1_submitted_1_2) = [[0, 0]] \<and>
   map (ready_to_run_tasks \<circ> snd) (namespaces ran_1_submitted_1_2) = [[prioritized (node 2 0 1)]]"
proof -
  have h: "SetTaskGraph 1 graph_1_2 ran_1 = Inr (ran_1_submitted_1_2, \<lparr>nodes = [], edges = []\<rparr>)"
    by (simp add: SetTaskGraph_def set_namespace_graph_def take_namespace_def ran_1_def
        ran_1_submitted_1_2_def graph_1_2_def node_def edge_def Let_def remove_old_node_def
        is_running_def ready_namespaces_def decrement_dependent_def)
  from SetTaskGraph_discounts_completed [OF h] h show ?thesis
    by (simp add: ran_1_submitted_1_2_def graph_1_2_def node_def edge_def discounts_def
        edge_count_def in_degree_def prioritized_def)
qed

subsection \<open>Submitting the same graph twice\<close>

lemma discount_task_no_edge:
  "\<forall>e\<in>set es. Edge.task e \<noteq> t \<Longrightarrow> discount_task es t ns = Inr ns"
  by (induction es) simp_all

lemma discount_completed_no_edge:
  "\<forall>e\<in>set es. Edge.task e \<notin> set cs \<Longrightarrow> discount_completed cs es ns = Inr ns"
proof (induction cs)
  case Nil
  then show ?case by simp
next
  case (Cons t ts)
  have "discount_task es t ns = Inr ns"
    using Cons.prems by (intro discount_task_no_edge) auto
  moreover have "discount_completed ts es ns = Inr ns"
    using Cons by auto
  ultimately show ?case by simp
qed

lemma discount_completed_append:
  "discount_completed (cs @ cs') es ns =
     (case discount_completed cs es ns of
        Inl err \<Rightarrow> Inl err
      | Inr ns' \<Rightarrow> discount_completed cs' es ns')"
  by (induction cs arbitrary: ns) (auto split: sum.splits)

lemma mset_tasks_remove_old_node:
  "image_mset Node.task (mset (remove_old_node old t)) = image_mset Node.task (mset old) - {#t#}"
proof (cases "find_node old t")
  case None
  then have "t \<notin> Node.task ` set old" by (simp add: find_node_None)
  then have "t \<notin># image_mset Node.task (mset old)" by simp
  then show ?thesis using None by (simp add: remove_old_node_def diff_single_trivial)
next
  case (Some i)
  from find_node_Some [OF Some] have i: "i < length old" "Node.task (old ! i) = t" by auto
  have "mset (remove_old_node old t) = mset old - {#old ! i#}"
    by (simp add: mset_remove_old_node Some)
  then have "image_mset Node.task (mset (remove_old_node old t)) =
      image_mset Node.task (mset old - {#old ! i#})"
    by simp
  also have "\<dots> = image_mset Node.task (mset old) - {#Node.task (old ! i)#}"
    using i(1) by (simp add: image_mset_Diff)
  finally show ?thesis by (simp add: i(2))
qed

lemma fold_remove_tasks:
  "image_mset Node.task (mset (fold (\<lambda>n old. remove_old_node old (Node.task n)) ns old)) =
     image_mset Node.task (mset old) - image_mset Node.task (mset ns)"
proof (induction ns arbitrary: old)
  case Nil
  then show ?case by simp
next
  case (Cons n ns)
  have "image_mset Node.task (mset (fold (\<lambda>n old. remove_old_node old (Node.task n)) (n # ns) old))
      = image_mset Node.task (mset old) - {#Node.task n#} - image_mset Node.task (mset ns)"
    by (simp add: Cons.IH mset_tasks_remove_old_node)
  also have "\<dots> = image_mset Node.task (mset old) - image_mset Node.task (mset (n # ns))"
    by (simp add: diff_diff_add)
  finally show ?case .
qed

lemma fold_remove_all:
  assumes "image_mset Node.task (mset old) = image_mset Node.task (mset ns)"
  shows "fold (\<lambda>n old. remove_old_node old (Node.task n)) ns old = []"
proof -
  have "image_mset Node.task (mset (fold (\<lambda>n old. remove_old_node old (Node.task n)) ns old)) = {#}"
    by (simp add: fold_remove_tasks assms)
  then show ?thesis by simp
qed

lemma fold_remove_distinct:
  assumes "distinct (map Node.task old)" and "t \<in> Node.task ` set ns"
  shows "t \<notin> Node.task ` set (fold (\<lambda>n old. remove_old_node old (Node.task n)) ns old)"
proof -
  let ?r = "fold (\<lambda>n old. remove_old_node old (Node.task n)) ns old"
  have "count (mset (map Node.task old)) t \<le> 1"
    using assms(1) by (simp add: distinct_count_atmost_1)
  then have a: "count (image_mset Node.task (mset old)) t \<le> 1" by simp
  have "t \<in># image_mset Node.task (mset ns)" using assms(2) by simp
  then have b: "1 \<le> count (image_mset Node.task (mset ns)) t"
    by (simp only: count_greater_eq_one_iff)
  have "count (image_mset Node.task (mset ?r)) t =
      count (image_mset Node.task (mset old)) t - count (image_mset Node.task (mset ns)) t"
    by (simp only: fold_remove_tasks count_diff)
  with a b have "count (image_mset Node.task (mset ?r)) t = 0" by linarith
  then have "t \<notin># image_mset Node.task (mset ?r)"
    by (simp only: not_in_iff)
  then show ?thesis by simp
qed

lemma SetTaskGraph_again:
  assumes first: "SetTaskGraph token g s = Inr (s1, g1)"
    and ns1: "map_of (namespaces s1) token = Some ns1"
    and old: "completed_tasks ns1 = completed_tasks (take_namespace (namespaces s) token) @ app"
    and app: "\<forall>e\<in>set (edges g). Edge.task e \<notin> set app"
  shows "SetTaskGraph token g s1 = Inr (s1, \<lparr>nodes = [], edges = edges g\<rparr>)"
proof -
  let ?old = "take_namespace (namespaces s) token"
  from first obtain ns' where t: "token \<noteq> 0"
    and n: "set_namespace_graph (did_run s) (running_tasks s) g ?old = Inr (ns', g1)"
    and nss: "namespaces s1 = AList.delete token (namespaces s) @ [(token, ns')]"
    and rrn: "ready_to_run_namespaces s1 =
       make_heap (CompareTaskNamespacePriority (namespaces s1)) (ready_namespaces (namespaces s1))"
    and rt: "running_tasks s1 = running_tasks s" and dr: "did_run s1 = did_run s"
    and m: "map_of (namespaces s1) token = Some ns'"
    by (rule SetTaskGraph_Inr)
  from m ns1 have [simp]: "ns' = ns1" by simp
  from n obtain new_nodes where
    d: "discount_completed (completed_tasks ?old) (edges g) (nodes g) = Inr new_nodes"
    and gr: "graph ns1 = \<lparr>nodes = new_nodes, edges = edges g\<rparr>"
    and r: "ready_to_run_tasks ns1 =
       make_heap CompareTaskPriority
         (map prioritized (filter (runnable (did_run s) (running_tasks s)) new_nodes))"
    by (rule set_namespace_graph_Inr) simp_all
  have tk: "take_namespace (namespaces s1) token = ns1"
    using ns1 by (simp add: take_namespace_def)
  have d2: "discount_completed (completed_tasks ns1) (edges g) (nodes g) = Inr new_nodes"
    by (simp add: old discount_completed_append d discount_completed_no_edge [OF app])
  have rem: "fold (\<lambda>n old. remove_old_node old (Node.task n)) new_nodes new_nodes = []"
    by (rule fold_remove_all) simp
  have again: "set_namespace_graph (did_run s1) (running_tasks s1) g ns1 =
      Inr (ns1, \<lparr>nodes = [], edges = edges g\<rparr>)"
    by (simp add: set_namespace_graph_def d2 Let_def fst_build_ready snd_build_ready rem gr
        r dr rt)
  have del: "AList.delete token (namespaces s1) = AList.delete token (namespaces s)"
    by (simp add: nss delete_idem AList.delete_eq)
  have "SetTaskGraph token g s1 =
      Inr (s1\<lparr>namespaces := namespaces s1, ready_to_run_namespaces := ready_to_run_namespaces s1\<rparr>,
           \<lparr>nodes = [], edges = edges g\<rparr>)"
    unfolding SetTaskGraph_def using t
    by (simp add: tk again del Let_def) (simp add: nss [symmetric, simplified] rrn [symmetric])
  then show ?thesis by simp
qed

text \<open>
  C8. Let \<^verbatim>\<open>SetTaskGraph(token, g)\<close> have returned, and let the same graph be submitted
  again with nothing in between. If the completed queue of the namespace is empty after
  the first call (as for a token that had no namespace), or if the nodes of the old graph
  were for distinct tasks and every edge of \<open>g\<close> starts at a node of \<open>g\<close>, then the
  second call returns and leaves the whole state as it was after the first: the same ready
  queue, the same nodes and edges, the same completed queue, and no task canceled (the
  caller's graph comes back without nodes).
\<close>

theorem SetTaskGraph_twice:
  assumes "SetTaskGraph token g s = Inr (s1, g1)"
    and "completed_tasks (take_namespace (namespaces s1) token) = [] \<or>
         (distinct_tasks (graph (take_namespace (namespaces s) token)) \<and>
          (\<forall>e\<in>set (edges g). Edge.task e \<in> Node.task ` set (nodes g)))"
  shows "SetTaskGraph token g s1 = Inr (s1, \<lparr>nodes = [], edges = edges g\<rparr>)"
proof -
  let ?old = "take_namespace (namespaces s) token"
  from assms(1) obtain ns1 where
    n: "set_namespace_graph (did_run s) (running_tasks s) g ?old = Inr (ns1, g1)"
    and m: "map_of (namespaces s1) token = Some ns1"
    by (rule SetTaskGraph_Inr)
  from n obtain new_nodes where
    d: "discount_completed (completed_tasks ?old) (edges g) (nodes g) = Inr new_nodes"
    and g1: "nodes g1 = fold (\<lambda>n old. remove_old_node old (Node.task n)) new_nodes (nodes (graph ?old))"
    and c: "completed_tasks ns1 = completed_tasks ?old @
        map Node.task (filter (cancelable (did_run s) (running_tasks s)) (nodes g1))"
    by (rule set_namespace_graph_Inr)
  let ?app = "map Node.task (filter (cancelable (did_run s) (running_tasks s)) (nodes g1))"
  have tk: "take_namespace (namespaces s1) token = ns1"
    using m by (simp add: take_namespace_def)
  have "\<forall>e\<in>set (edges g). Edge.task e \<notin> set ?app"
    using assms(2)
  proof
    assume "completed_tasks (take_namespace (namespaces s1) token) = []"
    then have "?app = []" using c tk by simp
    then show ?thesis by simp
  next
    assume h: "distinct_tasks (graph ?old) \<and>
          (\<forall>e\<in>set (edges g). Edge.task e \<in> Node.task ` set (nodes g))"
    have tasks: "Node.task ` set new_nodes = Node.task ` set (nodes g)"
      using discount_completed_tasks [OF d] by (metis set_map)
    show ?thesis
    proof
      fix e assume e: "e \<in> set (edges g)"
      with h have "Edge.task e \<in> Node.task ` set new_nodes" using tasks by simp
      with h have "Edge.task e \<notin> Node.task ` set (nodes g1)"
        unfolding g1 distinct_tasks_def by (intro fold_remove_distinct) simp_all
      then show "Edge.task e \<notin> set ?app" by auto
    qed
  qed
  with assms(1) m c show ?thesis by (rule SetTaskGraph_again)
qed

theorem SetTaskGraph_twice_witness:
  "SetTaskGraph 1 graph_1_2 fresh_runner = Inr (submitted_1_2, \<lparr>nodes = [], edges = []\<rparr>) \<and>
   completed_tasks (take_namespace (namespaces submitted_1_2) 1) = [] \<and>
   SetTaskGraph 1 graph_1_2 submitted_1_2 = Inr (submitted_1_2, \<lparr>nodes = [], edges = [edge 1 2]\<rparr>) \<and>
   SetTaskGraph 1 graph_3 submitted_1_2 = Inr (submitted_3, graph_1_2) \<and>
   distinct_tasks (graph (take_namespace (namespaces submitted_1_2) 1)) \<and>
   completed_tasks (take_namespace (namespaces submitted_3) 1) = [1, 2] \<and>
   SetTaskGraph 1 graph_3 submitted_3 = Inr (submitted_3, \<lparr>nodes = [], edges = []\<rparr>)"
proof -
  have h1: "SetTaskGraph 1 graph_1_2 fresh_runner = Inr (submitted_1_2, \<lparr>nodes = [], edges = []\<rparr>)"
    by (simp add: SetTaskGraph_def set_namespace_graph_def take_namespace_def fresh_runner_def
        new_TaskGraphRunner_def new_TaskNamespace_def submitted_1_2_def graph_1_2_def node_def
        edge_def Let_def remove_old_node_def is_running_def ready_namespaces_def)
  have h2: "SetTaskGraph 1 graph_3 submitted_1_2 = Inr (submitted_3, graph_1_2)"
    by (simp add: SetTaskGraph_def set_namespace_graph_def take_namespace_def submitted_1_2_def
        submitted_3_def graph_3_def graph_1_2_def node_def edge_def Let_def remove_old_node_def
        is_running_def ready_namespaces_def)
  have c1: "completed_tasks (take_namespace (namespaces submitted_1_2) 1) = []"
    by (simp add: take_namespace_def submitted_1_2_def)
  have c2: "distinct_tasks (graph (take_namespace (namespaces submitted_1_2) 1)) \<and>
      (\<forall>e\<in>set (edges graph_3). Edge.task e \<in> Node.task ` set (nodes graph_3))"
    by (simp add: take_namespace_def submitted_1_2_def distinct_tasks_def graph_1_2_def
        graph_3_def node_def)
  have c3: "completed_tasks (take_namespace (namespaces submitted_3) 1) = [1, 2]"
    by (simp add: take_namespace_def submitted_3_def)
  from SetTaskGraph_twice [OF h1, OF disjI1, OF c1] SetTaskGraph_twice [OF h2, OF disjI2, OF c2]
    h1 h2 c1 c2 c3
  show ?thesis by (simp add: graph_1_2_def graph_3_def)
qed

subsection \<open>SetTaskGraph: the ready queue\<close>

lemma sift_down_leaf: "length xs \<le> 2 * i + 1 \<Longrightarrow> sift_down lt xs i = xs"
  by (subst sift_down.simps) simp

lemma make_heap_three:
  "make_heap lt [x, y, z] =
     (let c = (if lt y z then z else y) in
      if lt x c then (if lt y z then [z, y, x] else [y, x, z]) else [x, y, z])"
  by (simp add: make_heap_def sift_down.simps [of lt "[x, y, z]"] sift_down_leaf swap_at_def
      Let_def)

text \<open>
  C4. After \<^verbatim>\<open>SetTaskGraph(token, g)\<close> the nodes of the namespace are the nodes of \<open>g\<close>
  after the discount of the completed tasks (same tasks, same priorities, in the same
  order), and the ready queue holds, as a multiset, one entry (task and priority) for each
  of these nodes that has counter zero, a task that has not finished running and a task
  that is in no slot of \<^verbatim>\<open>running_tasks_\<close>, and nothing else; and it is a heap for
  \<^verbatim>\<open>CompareTaskPriority\<close>.
\<close>

theorem SetTaskGraph_ready_queue:
  assumes "SetTaskGraph token g s = Inr (s', g')"
  shows "\<exists>ns'. map_of (namespaces s') token = Some ns' \<and>
           discount_completed (completed_tasks (take_namespace (namespaces s) token))
             (edges g) (nodes g) = Inr (nodes (graph ns')) \<and>
           edges (graph ns') = edges g \<and>
           map Node.task (nodes (graph ns')) = map Node.task (nodes g) \<and>
           map Node.priority (nodes (graph ns')) = map Node.priority (nodes g) \<and>
           mset (ready_to_run_tasks ns') =
             mset (map prioritized
                    (filter (runnable (did_run s) (running_tasks s)) (nodes (graph ns')))) \<and>
           did_run s' = did_run s \<and> running_tasks s' = running_tasks s \<and>
           is_heap CompareTaskPriority (ready_to_run_tasks ns')"
proof -
  let ?old = "take_namespace (namespaces s) token"
  from assms obtain ns' where
    n: "set_namespace_graph (did_run s) (running_tasks s) g ?old = Inr (ns', g')"
    and m: "map_of (namespaces s') token = Some ns'"
    and dr: "did_run s' = did_run s" and rt: "running_tasks s' = running_tasks s"
    by (rule SetTaskGraph_Inr)
  from n obtain new_nodes where
    d: "discount_completed (completed_tasks ?old) (edges g) (nodes g) = Inr new_nodes"
    and gr: "graph ns' = \<lparr>nodes = new_nodes, edges = edges g\<rparr>"
    and r: "ready_to_run_tasks ns' =
       make_heap CompareTaskPriority
         (map prioritized (filter (runnable (did_run s) (running_tasks s)) new_nodes))"
    by (rule set_namespace_graph_Inr)
  note tk = discount_completed_tasks [OF d]
  have "discount_completed (completed_tasks ?old) (edges g) (nodes g) = Inr (nodes (graph ns'))"
    by (simp add: d gr)
  moreover have "edges (graph ns') = edges g" by (simp add: gr)
  moreover have "map Node.task (nodes (graph ns')) = map Node.task (nodes g)"
    "map Node.priority (nodes (graph ns')) = map Node.priority (nodes g)"
    using tk by (simp_all add: gr)
  moreover have "mset (ready_to_run_tasks ns') =
          mset (map prioritized
                 (filter (runnable (did_run s) (running_tasks s)) (nodes (graph ns'))))"
    by (simp add: r gr)
  moreover have "is_heap CompareTaskPriority (ready_to_run_tasks ns')"
    unfolding r by (rule is_heap_make_heap [OF strict_weak_CompareTaskPriority])
  ultimately show ?thesis using m dr rt by blast
qed

theorem SetTaskGraph_ready_queue_witness:
  "SetTaskGraph 1 graph_six running_6 = Inr (running_6_submitted_six, \<lparr>nodes = [], edges = []\<rparr>) \<and>
   discount_completed [] (edges graph_six) (nodes graph_six) = Inr (nodes graph_six) \<and>
   filter (runnable (did_run running_6) (running_tasks running_6)) (nodes graph_six) =
     [node 1 5 0, node 2 1 0, node 3 3 0] \<and>
   map (ready_to_run_tasks \<circ> snd) (namespaces running_6_submitted_six) =
     [[], [prioritized (node 2 1 0), prioritized (node 1 5 0), prioritized (node 3 3 0)]] \<and>
   is_heap CompareTaskPriority
     [prioritized (node 2 1 0), prioritized (node 1 5 0), prioritized (node 3 3 0)] \<and>
   \<not> is_heap CompareTaskPriority
     [prioritized (node 1 5 0), prioritized (node 2 1 0), prioritized (node 3 3 0)] \<and>
   SetTaskGraph 1 graph_1_2 ran_1 = Inr (ran_1_submitted_1_2, \<lparr>nodes = [], edges = []\<rparr>) \<and>
   discount_completed [1] (edges graph_1_2) (nodes graph_1_2) = Inr [node 1 0 0, node 2 0 0] \<and>
   map (ready_to_run_tasks \<circ> snd) (namespaces ran_1_submitted_1_2) =
     [[prioritized (node 2 0 0)]]"
proof -
  have h: "SetTaskGraph 1 graph_six running_6 =
      Inr (running_6_submitted_six, \<lparr>nodes = [], edges = []\<rparr>)"
    by (simp add: SetTaskGraph_def set_namespace_graph_def take_namespace_def running_6_def
        running_6_submitted_six_def graph_six_def node_def edge_def Let_def remove_old_node_def
        is_running_def ready_namespaces_def new_TaskNamespace_def make_heap_three
        CompareTaskPriority_def)
  have h2: "SetTaskGraph 1 graph_1_2 ran_1 = Inr (ran_1_submitted_1_2, \<lparr>nodes = [], edges = []\<rparr>)"
    by (simp add: SetTaskGraph_def set_namespace_graph_def take_namespace_def ran_1_def
        ran_1_submitted_1_2_def graph_1_2_def node_def edge_def Let_def remove_old_node_def
        is_running_def ready_namespaces_def decrement_dependent_def)
  have hp: "is_heap CompareTaskPriority
       [prioritized (node 2 1 0), prioritized (node 1 5 0), prioritized (node 3 3 0)] \<and>
     \<not> is_heap CompareTaskPriority
       [prioritized (node 1 5 0), prioritized (node 2 1 0), prioritized (node 3 3 0)]"
    by (simp add: is_heap_def parent_def CompareTaskPriority_def prioritized_def node_def
        upt_rec [of "Suc 0"] upt_rec [of 2] upt_rec [of 3])
  from SetTaskGraph_ready_queue [OF h] SetTaskGraph_ready_queue [OF h2] h h2 hp show ?thesis
    by (simp add: running_6_submitted_six_def running_6_def ran_1_submitted_1_2_def ran_1_def
        graph_six_def graph_1_2_def runnable_def node_def edge_def is_running_def
        prioritized_def take_namespace_def new_TaskNamespace_def decrement_dependent_def)
qed

subsection \<open>The queue of ready namespaces\<close>

lemma in_ready_namespaces:
  assumes "distinct (map fst nss)"
  shows "k \<in> set (ready_namespaces nss) \<longleftrightarrow> has_ready_tasks nss k"
proof -
  have "k \<in> set (ready_namespaces nss) \<longleftrightarrow>
      (\<exists>ns. (k, ns) \<in> set nss \<and> ready_to_run_tasks ns \<noteq> [])"
    by (force simp: ready_namespaces_def)
  also have "\<dots> \<longleftrightarrow> (\<exists>ns. map_of nss k = Some ns \<and> ready_to_run_tasks ns \<noteq> [])"
    using assms by (simp add: map_of_eq_Some_iff)
  also have "\<dots> \<longleftrightarrow> has_ready_tasks nss k"
    by (auto simp: has_ready_tasks_def split: option.splits)
  finally show ?thesis .
qed

lemma distinct_ready_namespaces:
  "distinct (map fst nss) \<Longrightarrow> distinct (ready_namespaces nss)"
  unfolding ready_namespaces_def by (rule distinct_map_filter)

lemma ready_namespaces_ok_iff:
  "ready_namespaces_ok s \<longleftrightarrow>
     distinct (map fst (namespaces s)) \<and> distinct (ready_to_run_namespaces s) \<and>
     (\<forall>k. k \<in> set (ready_to_run_namespaces s) \<longleftrightarrow> has_ready_tasks (namespaces s) k)"
proof (cases "distinct (map fst (namespaces s))")
  case True
  have "set (ready_to_run_namespaces s) = set (ready_namespaces (namespaces s)) \<longleftrightarrow>
      (\<forall>k. k \<in> set (ready_to_run_namespaces s) \<longleftrightarrow> k \<in> set (ready_namespaces (namespaces s)))"
    by (rule set_eq_iff)
  then show ?thesis
    using True by (simp only: ready_namespaces_ok_def in_ready_namespaces [OF True])
next
  case False
  then show ?thesis by (simp add: ready_namespaces_ok_def)
qed

lemma has_ready_tasks_update:
  "has_ready_tasks (AList.update k ns nss) k' =
     (if k' = k then ready_to_run_tasks ns \<noteq> [] else has_ready_tasks nss k')"
  by (simp add: has_ready_tasks_def update_conv')

lemma head_task_update:
  "head_task (AList.update k ns nss) k' =
     (if k' = k then hd (ready_to_run_tasks ns) else head_task nss k')"
  by (simp add: head_task_def update_conv')

lemma has_ready_tasks_delete:
  "has_ready_tasks (AList.delete k nss) k' = (k' \<noteq> k \<and> has_ready_tasks nss k')"
  by (simp add: has_ready_tasks_def delete_conv')

lemma head_task_delete:
  "k' \<noteq> k \<Longrightarrow> head_task (AList.delete k nss) k' = head_task nss k'"
  by (simp add: head_task_def delete_conv')

lemma has_ready_tasks_set:
  "has_ready_tasks (AList.delete k nss @ [(k, ns)]) k' =
     (if k' = k then ready_to_run_tasks ns \<noteq> [] else has_ready_tasks nss k')"
  by (simp add: has_ready_tasks_def map_add_def delete_conv' split: option.splits)

lemma is_heap_cong:
  assumes "\<forall>a\<in>set xs. \<forall>b\<in>set xs. lt a b = lt' a b"
  shows "is_heap lt xs = is_heap lt' xs"
proof -
  have "lt (xs ! parent j) (xs ! j) = lt' (xs ! parent j) (xs ! j)" if "0 < j" "j < length xs" for j
  proof -
    have "parent j < length xs" using that parent_less [of j] by simp
    then show ?thesis using assms that by simp
  qed
  then show ?thesis by (auto simp: is_heap_iff)
qed

lemma is_heap_namespaces_cong:
  assumes "\<forall>a\<in>set xs. head_task nss a = head_task nss' a"
  shows "is_heap (CompareTaskNamespacePriority nss) xs =
         is_heap (CompareTaskNamespacePriority nss') xs"
  by (rule is_heap_cong) (simp add: CompareTaskNamespacePriority_def assms)

lemma distinct_mset_eq: "mset xs = mset ys \<Longrightarrow> distinct xs = distinct ys"
  by (rule mset_eq_imp_distinct_iff)

lemma heaps_ok_tasks:
  "heaps_ok s \<Longrightarrow> map_of (namespaces s) k = Some ns \<Longrightarrow>
   is_heap CompareTaskPriority (ready_to_run_tasks ns)"
proof -
  assume h: "heaps_ok s" and m: "map_of (namespaces s) k = Some ns"
  from m have "(k, ns) \<in> set (namespaces s)" by (rule map_of_SomeD)
  with h show ?thesis by (force simp: heaps_ok_def list_all_iff)
qed

subsection \<open>SetTaskGraph keeps the queues in order\<close>

lemma SetTaskGraph_ready_namespaces_ok:
  assumes "SetTaskGraph token g s = Inr (s', g')" and "distinct (map fst (namespaces s))"
  shows "ready_namespaces_ok s'"
proof -
  from assms(1) obtain ns' where
    nss: "namespaces s' = AList.delete token (namespaces s) @ [(token, ns')]"
    and rrn: "ready_to_run_namespaces s' =
       make_heap (CompareTaskNamespacePriority (namespaces s')) (ready_namespaces (namespaces s'))"
    by (rule SetTaskGraph_Inr)
  have d: "distinct (map fst (namespaces s'))"
    using assms(2) by (simp add: nss distinct_delete delete_notin_dom)
  have m: "mset (ready_to_run_namespaces s') = mset (ready_namespaces (namespaces s'))"
    by (simp add: rrn)
  have "distinct (ready_to_run_namespaces s')"
    using distinct_mset_eq [OF m] distinct_ready_namespaces [OF d] by simp
  moreover have "set (ready_to_run_namespaces s') = set (ready_namespaces (namespaces s'))"
    using m by (rule mset_eq_setD)
  ultimately show ?thesis using d by (simp add: ready_namespaces_ok_def)
qed

lemma SetTaskGraph_heaps_ok:
  assumes "SetTaskGraph token g s = Inr (s', g')" and "heaps_ok s"
  shows "heaps_ok s'"
proof -
  from assms(1) obtain ns' where
    n: "set_namespace_graph (did_run s) (running_tasks s) g (take_namespace (namespaces s) token)
       = Inr (ns', g')"
    and nss: "namespaces s' = AList.delete token (namespaces s) @ [(token, ns')]"
    and rrn: "ready_to_run_namespaces s' =
       make_heap (CompareTaskNamespacePriority (namespaces s')) (ready_namespaces (namespaces s'))"
    by (rule SetTaskGraph_Inr)
  from n obtain new_nodes where
    r: "ready_to_run_tasks ns' =
       make_heap CompareTaskPriority
         (map prioritized (filter (runnable (did_run s) (running_tasks s)) new_nodes))"
    by (rule set_namespace_graph_Inr)
  have "is_heap (CompareTaskNamespacePriority (namespaces s')) (ready_to_run_namespaces s')"
    unfolding rrn by (rule is_heap_make_heap [OF strict_weak_CompareTaskNamespacePriority])
  moreover have "is_heap CompareTaskPriority (ready_to_run_tasks ns')"
    unfolding r by (rule is_heap_make_heap [OF strict_weak_CompareTaskPriority])
  moreover have "set (AList.delete token (namespaces s)) \<subseteq> set (namespaces s)"
    by (auto simp: AList.delete_eq)
  ultimately show ?thesis using assms(2)
    by (auto simp: heaps_ok_def nss list_all_iff)
qed

subsection \<open>CollectCompletedTasks keeps the queues in order\<close>

lemma CollectCompletedTasks_Inr:
  assumes "CollectCompletedTasks token out s = Inr (s', out')"
  obtains "s' = s"
  | ns where "map_of (namespaces s) token = Some ns"
      "\<not> HasFinishedRunningTasksInNamespace (ns\<lparr>completed_tasks := []\<rparr>)"
      "s' = s\<lparr>namespaces := AList.update token (ns\<lparr>completed_tasks := []\<rparr>) (namespaces s)\<rparr>"
  | ns where "map_of (namespaces s) token = Some ns"
      "HasFinishedRunningTasksInNamespace (ns\<lparr>completed_tasks := []\<rparr>)"
      "s' = s\<lparr>namespaces := AList.delete token (namespaces s)\<rparr>"
  using assms
  by (auto simp: CollectCompletedTasks_def Let_def split: if_splits option.splits)

lemma CollectCompletedTasks_ready_namespaces_ok:
  assumes "CollectCompletedTasks token out s = Inr (s', out')" and "ready_namespaces_ok s"
  shows "ready_namespaces_ok s'"
  using assms(1)
proof (cases rule: CollectCompletedTasks_Inr)
  case 1
  then show ?thesis using assms(2) by simp
next
  case (2 ns)
  have "has_ready_tasks (namespaces s) token = (ready_to_run_tasks ns \<noteq> [])"
    using 2(1) by (simp add: has_ready_tasks_def)
  then have "has_ready_tasks (namespaces s') k = has_ready_tasks (namespaces s) k" for k
    by (simp add: 2(3) has_ready_tasks_update)
  then show ?thesis using assms(2)
    by (simp add: ready_namespaces_ok_iff) (simp add: 2(3) distinct_update)
next
  case (3 ns)
  have "\<not> has_ready_tasks (namespaces s) token"
    using 3(1,2) by (simp add: has_ready_tasks_def HasFinishedRunningTasksInNamespace_def)
  then have "has_ready_tasks (namespaces s') k = has_ready_tasks (namespaces s) k" for k
    by (auto simp: 3(3) has_ready_tasks_delete)
  then show ?thesis using assms(2)
    by (simp add: ready_namespaces_ok_iff) (simp add: 3(3) distinct_delete)
qed

lemma heaps_ok_iff:
  assumes "distinct (map fst (namespaces s))"
  shows "heaps_ok s \<longleftrightarrow>
     is_heap (CompareTaskNamespacePriority (namespaces s)) (ready_to_run_namespaces s) \<and>
     (\<forall>k ns. map_of (namespaces s) k = Some ns \<longrightarrow>
        is_heap CompareTaskPriority (ready_to_run_tasks ns))"
proof -
  have "list_all (\<lambda>kn. is_heap CompareTaskPriority (ready_to_run_tasks (snd kn))) (namespaces s) \<longleftrightarrow>
      (\<forall>k ns. (k, ns) \<in> set (namespaces s) \<longrightarrow> is_heap CompareTaskPriority (ready_to_run_tasks ns))"
    by (auto simp: list_all_iff)
  also have "\<dots> \<longleftrightarrow> (\<forall>k ns. map_of (namespaces s) k = Some ns \<longrightarrow>
        is_heap CompareTaskPriority (ready_to_run_tasks ns))"
    using assms by (simp add: map_of_eq_Some_iff)
  finally show ?thesis by (simp add: heaps_ok_def)
qed

lemma CollectCompletedTasks_heaps_ok:
  assumes c: "CollectCompletedTasks token out s = Inr (s', out')"
    and r: "ready_namespaces_ok s" and h: "heaps_ok s"
  shows "heaps_ok s'"
proof -
  have d: "distinct (map fst (namespaces s))" using r by (simp add: ready_namespaces_ok_def)
  have "ready_namespaces_ok s'" using c r by (rule CollectCompletedTasks_ready_namespaces_ok)
  then have d': "distinct (map fst (namespaces s'))" by (simp add: ready_namespaces_ok_def)
  note h0 = h [unfolded heaps_ok_iff [OF d]]
  from c show ?thesis
  proof (cases rule: CollectCompletedTasks_Inr)
    case 1
    then show ?thesis using h by simp
  next
    case (2 ns)
    have "head_task (namespaces s) token = hd (ready_to_run_tasks ns)"
      using 2(1) by (simp add: head_task_def)
    then have "\<forall>a\<in>set (ready_to_run_namespaces s).
        head_task (namespaces s') a = head_task (namespaces s) a"
      by (simp add: 2(3) head_task_update)
    from is_heap_namespaces_cong [OF this] h0
    have a: "is_heap (CompareTaskNamespacePriority (namespaces s')) (ready_to_run_namespaces s')"
      by (simp add: 2(3))
    have b: "is_heap CompareTaskPriority (ready_to_run_tasks ns')"
      if "map_of (namespaces s') k = Some ns'" for k ns'
      using that h0 2(1) by (auto simp: 2(3) update_conv' split: if_splits)
    from a b show ?thesis unfolding heaps_ok_iff [OF d'] by blast
  next
    case (3 ns)
    have "\<not> has_ready_tasks (namespaces s) token"
      using 3(1,2) by (simp add: has_ready_tasks_def HasFinishedRunningTasksInNamespace_def)
    then have "token \<notin> set (ready_to_run_namespaces s)"
      using r by (simp add: ready_namespaces_ok_iff)
    then have "\<forall>a\<in>set (ready_to_run_namespaces s).
        head_task (namespaces s') a = head_task (namespaces s) a"
      by (auto simp: 3(3) intro: head_task_delete)
    from is_heap_namespaces_cong [OF this] h0
    have a: "is_heap (CompareTaskNamespacePriority (namespaces s')) (ready_to_run_namespaces s')"
      by (simp add: 3(3))
    have b: "is_heap CompareTaskPriority (ready_to_run_tasks ns')"
      if "map_of (namespaces s') k = Some ns'" for k ns'
      using that h0 by (auto simp: 3(3) delete_conv' split: if_splits)
    from a b show ?thesis unfolding heaps_ok_iff [OF d'] by blast
  qed
qed

subsection \<open>Dispatch keeps the queues in order\<close>

lemma RunTask_dispatch_Inr:
  assumes "RunTask_dispatch i s = Inr (s', t, k)"
  obtains ns where
    "ready_to_run_namespaces s \<noteq> []"
    "list_all (has_ready_tasks (namespaces s)) (ready_to_run_namespaces s)"
    "k = last (pop_heap (CompareTaskNamespacePriority (namespaces s)) (ready_to_run_namespaces s))"
    "map_of (namespaces s) k = Some ns"
    "t = PrioritizedTask.task (last (pop_heap CompareTaskPriority (ready_to_run_tasks ns)))"
    "i < length (running_tasks s)" "running_tasks s ! i = None" "\<not> did_run s t"
    "namespaces s' =
       AList.update k
         (ns\<lparr>ready_to_run_tasks := butlast (pop_heap CompareTaskPriority (ready_to_run_tasks ns)),
             num_running_tasks := num_running_tasks ns + 1\<rparr>) (namespaces s)"
    "ready_to_run_namespaces s' =
       (if butlast (pop_heap CompareTaskPriority (ready_to_run_tasks ns)) \<noteq> []
        then push_heap
               (CompareTaskNamespacePriority
                  (AList.update k
                     (ns\<lparr>ready_to_run_tasks :=
                           butlast (pop_heap CompareTaskPriority (ready_to_run_tasks ns))\<rparr>)
                     (namespaces s)))
               (butlast (pop_heap (CompareTaskNamespacePriority (namespaces s))
                           (ready_to_run_namespaces s)) @ [k])
        else butlast (pop_heap (CompareTaskNamespacePriority (namespaces s))
                        (ready_to_run_namespaces s)))"
    "running_tasks s' = (running_tasks s)[i := Some t]"
    "did_run s' = did_run s"
proof -
  from assms have a: "ready_to_run_namespaces s \<noteq> []"
    "list_all (has_ready_tasks (namespaces s)) (ready_to_run_namespaces s)"
    by (auto simp: RunTask_dispatch_def split: if_splits)
  let ?k = "last (pop_heap (CompareTaskNamespacePriority (namespaces s)) (ready_to_run_namespaces s))"
  from assms a obtain ns where ns: "map_of (namespaces s) ?k = Some ns"
    by (auto simp: RunTask_dispatch_def Let_def split: option.splits)
  from assms a ns have rest:
    "i < length (running_tasks s)" "running_tasks s ! i = None"
    "\<not> did_run s (PrioritizedTask.task (last (pop_heap CompareTaskPriority (ready_to_run_tasks ns))))"
    by (auto simp: RunTask_dispatch_def Let_def split: if_splits)
  let ?t = "PrioritizedTask.task (last (pop_heap CompareTaskPriority (ready_to_run_tasks ns)))"
  let ?S = "s\<lparr>namespaces :=
             AList.update ?k
               (ns\<lparr>ready_to_run_tasks := butlast (pop_heap CompareTaskPriority (ready_to_run_tasks ns)),
                   num_running_tasks := num_running_tasks ns + 1\<rparr>) (namespaces s),
           ready_to_run_namespaces :=
             (if butlast (pop_heap CompareTaskPriority (ready_to_run_tasks ns)) \<noteq> []
              then push_heap
                     (CompareTaskNamespacePriority
                        (AList.update ?k
                           (ns\<lparr>ready_to_run_tasks :=
                                 butlast (pop_heap CompareTaskPriority (ready_to_run_tasks ns))\<rparr>)
                           (namespaces s)))
                     (butlast (pop_heap (CompareTaskNamespacePriority (namespaces s))
                                 (ready_to_run_namespaces s)) @ [?k])
              else butlast (pop_heap (CompareTaskNamespacePriority (namespaces s))
                              (ready_to_run_namespaces s))),
           running_tasks := (running_tasks s)[i := Some ?t]\<rparr>"
  have X: "RunTask_dispatch i s = Inr (?S, ?t, ?k)"
    using a ns rest by (simp add: RunTask_dispatch_def Let_def)
  have "(Inr (s', t, k) :: error + TaskGraphRunner \<times> Task \<times> int) = Inr (?S, ?t, ?k)"
    by (rule trans [OF assms [symmetric] X])
  then have c: "s' = ?S \<and> t = ?t \<and> k = ?k"
    by (simp only: sum.inject prod.inject)
  from c have res: "s' = ?S" "t = ?t" "k = ?k" by blast+
  show ?thesis
  proof (rule that [OF a res(3) _ res(2) rest(1,2)])
    show "map_of (namespaces s) k = Some ns" using ns res(3) by simp
    show "\<not> did_run s t" using rest(3) res(2) by simp
    show "namespaces s' =
       AList.update k
         (ns\<lparr>ready_to_run_tasks := butlast (pop_heap CompareTaskPriority (ready_to_run_tasks ns)),
             num_running_tasks := num_running_tasks ns + 1\<rparr>) (namespaces s)"
      by (simp add: res(1) res(3) [symmetric])
    show "ready_to_run_namespaces s' =
       (if butlast (pop_heap CompareTaskPriority (ready_to_run_tasks ns)) \<noteq> []
        then push_heap
               (CompareTaskNamespacePriority
                  (AList.update k
                     (ns\<lparr>ready_to_run_tasks :=
                           butlast (pop_heap CompareTaskPriority (ready_to_run_tasks ns))\<rparr>)
                     (namespaces s)))
               (butlast (pop_heap (CompareTaskNamespacePriority (namespaces s))
                           (ready_to_run_namespaces s)) @ [k])
        else butlast (pop_heap (CompareTaskNamespacePriority (namespaces s))
                        (ready_to_run_namespaces s)))"
      by (simp add: res(1) res(3) [symmetric])
    show "running_tasks s' = (running_tasks s)[i := Some t]"
      by (simp add: res(1) res(2) [symmetric])
    show "did_run s' = did_run s" by (simp add: res(1))
  qed
qed

lemma pop_heap_split:
  assumes "xs \<noteq> []"
  shows "pop_heap lt xs = butlast (pop_heap lt xs) @ [last (pop_heap lt xs)]"
    and "mset xs = mset (butlast (pop_heap lt xs)) + {#last (pop_heap lt xs)#}"
proof -
  have ne: "pop_heap lt xs \<noteq> []" using assms by (metis length_0_conv length_pop_heap)
  then show a: "pop_heap lt xs = butlast (pop_heap lt xs) @ [last (pop_heap lt xs)]" by simp
  have "mset xs = mset (pop_heap lt xs)" by simp
  also have "\<dots> = mset (butlast (pop_heap lt xs) @ [last (pop_heap lt xs)])"
    using a by simp
  finally show "mset xs = mset (butlast (pop_heap lt xs)) + {#last (pop_heap lt xs)#}" by simp
qed

lemma pop_heap_distinct:
  assumes "xs \<noteq> []" and "distinct xs"
  shows "distinct (butlast (pop_heap lt xs))"
    and "last (pop_heap lt xs) \<notin> set (butlast (pop_heap lt xs))"
    and "set xs = insert (last (pop_heap lt xs)) (set (butlast (pop_heap lt xs)))"
proof -
  let ?b = "butlast (pop_heap lt xs)" and ?l = "last (pop_heap lt xs)"
  have m: "mset xs = mset (?b @ [?l])" using pop_heap_split(2) [OF assms(1), of lt] by simp
  then have "distinct (?b @ [?l])" using assms(2) by (metis mset_eq_imp_distinct_iff)
  then show "distinct ?b" "?l \<notin> set ?b" by simp_all
  from m have "set xs = set (?b @ [?l])" by (rule mset_eq_setD)
  then show "set xs = insert ?l (set ?b)" by simp
qed

lemma RunTask_dispatch_ready_namespaces_ok:
  assumes d: "RunTask_dispatch i s = Inr (s', t, k)" and r: "ready_namespaces_ok s"
  shows "ready_namespaces_ok s'"
proof -
  let ?lt = "CompareTaskNamespacePriority (namespaces s)"
  let ?rrn1 = "butlast (pop_heap ?lt (ready_to_run_namespaces s))"
  from d obtain ns where
    ne: "ready_to_run_namespaces s \<noteq> []"
    and k: "k = last (pop_heap ?lt (ready_to_run_namespaces s))"
    and nss: "namespaces s' =
       AList.update k
         (ns\<lparr>ready_to_run_tasks := butlast (pop_heap CompareTaskPriority (ready_to_run_tasks ns)),
             num_running_tasks := num_running_tasks ns + 1\<rparr>) (namespaces s)"
    and rrn: "ready_to_run_namespaces s' =
       (if butlast (pop_heap CompareTaskPriority (ready_to_run_tasks ns)) \<noteq> []
        then push_heap
               (CompareTaskNamespacePriority
                  (AList.update k
                     (ns\<lparr>ready_to_run_tasks :=
                           butlast (pop_heap CompareTaskPriority (ready_to_run_tasks ns))\<rparr>)
                     (namespaces s)))
               (?rrn1 @ [k])
        else ?rrn1)"
    by (rule RunTask_dispatch_Inr)
  let ?r1 = "butlast (pop_heap CompareTaskPriority (ready_to_run_tasks ns))"
  from r have dk: "distinct (map fst (namespaces s))" and dr: "distinct (ready_to_run_namespaces s)"
    and mem: "\<And>k'. k' \<in> set (ready_to_run_namespaces s) \<longleftrightarrow> has_ready_tasks (namespaces s) k'"
    by (simp_all add: ready_namespaces_ok_iff)
  note pd = pop_heap_distinct [OF ne dr, of ?lt, folded k]
  have dk': "distinct (map fst (namespaces s'))" using dk by (simp add: nss distinct_update)
  have set': "set (ready_to_run_namespaces s') = (if ?r1 \<noteq> [] then insert k (set ?rrn1) else set ?rrn1)"
  proof (cases "?r1 \<noteq> []")
    case True
    then have "mset (ready_to_run_namespaces s') = mset (?rrn1 @ [k])"
      by (simp add: rrn)
    then have "set (ready_to_run_namespaces s') = set (?rrn1 @ [k])" by (rule mset_eq_setD)
    then show ?thesis using True by simp
  next
    case False
    then show ?thesis by (simp add: rrn)
  qed
  have dr': "distinct (ready_to_run_namespaces s')"
  proof (cases "?r1 \<noteq> []")
    case True
    then have "mset (ready_to_run_namespaces s') = mset (?rrn1 @ [k])"
      by (simp add: rrn)
    moreover have "distinct (?rrn1 @ [k])" using pd by simp
    ultimately show ?thesis by (metis mset_eq_imp_distinct_iff)
  next
    case False
    then show ?thesis using pd by (simp add: rrn)
  qed
  have "k' \<in> set (ready_to_run_namespaces s') \<longleftrightarrow> has_ready_tasks (namespaces s') k'" for k'
  proof (cases "k' = k")
    case True
    then show ?thesis using pd(2) by (simp add: set' nss has_ready_tasks_update)
  next
    case False
    then show ?thesis using mem [of k'] pd(3) by (simp add: set' nss has_ready_tasks_update)
  qed
  with dk' dr' show ?thesis by (simp add: ready_namespaces_ok_iff)
qed

lemma RunTask_dispatch_heaps_ok:
  assumes d: "RunTask_dispatch i s = Inr (s', t, k)"
    and r: "ready_namespaces_ok s" and h: "heaps_ok s"
  shows "heaps_ok s'"
proof -
  let ?lt = "CompareTaskNamespacePriority (namespaces s)"
  let ?rrn1 = "butlast (pop_heap ?lt (ready_to_run_namespaces s))"
  from d obtain ns where
    ne: "ready_to_run_namespaces s \<noteq> []"
    and k: "k = last (pop_heap ?lt (ready_to_run_namespaces s))"
    and ns: "map_of (namespaces s) k = Some ns"
    and nss: "namespaces s' =
       AList.update k
         (ns\<lparr>ready_to_run_tasks := butlast (pop_heap CompareTaskPriority (ready_to_run_tasks ns)),
             num_running_tasks := num_running_tasks ns + 1\<rparr>) (namespaces s)"
    and rrn: "ready_to_run_namespaces s' =
       (if butlast (pop_heap CompareTaskPriority (ready_to_run_tasks ns)) \<noteq> []
        then push_heap
               (CompareTaskNamespacePriority
                  (AList.update k
                     (ns\<lparr>ready_to_run_tasks :=
                           butlast (pop_heap CompareTaskPriority (ready_to_run_tasks ns))\<rparr>)
                     (namespaces s)))
               (?rrn1 @ [k])
        else ?rrn1)"
    by (rule RunTask_dispatch_Inr)
  let ?r1 = "butlast (pop_heap CompareTaskPriority (ready_to_run_tasks ns))"
  let ?nss1 = "AList.update k (ns\<lparr>ready_to_run_tasks := ?r1\<rparr>) (namespaces s)"
  let ?lt1 = "CompareTaskNamespacePriority ?nss1"
  from r have dk: "distinct (map fst (namespaces s))" and dr: "distinct (ready_to_run_namespaces s)"
    by (simp_all add: ready_namespaces_ok_iff)
  have "ready_namespaces_ok s'" using d r by (rule RunTask_dispatch_ready_namespaces_ok)
  then have dk': "distinct (map fst (namespaces s'))" by (simp add: ready_namespaces_ok_iff)
  note h0 = h [unfolded heaps_ok_iff [OF dk]]
  note pd = pop_heap_distinct [OF ne dr, of ?lt, folded k]
  have h1: "is_heap ?lt ?rrn1"
    using h0 by (intro is_heap_pop_heap strict_weak_CompareTaskNamespacePriority) simp
  have "\<forall>a\<in>set ?rrn1. head_task (namespaces s) a = head_task ?nss1 a"
    using pd(2) by (auto simp: head_task_update)
  from is_heap_namespaces_cong [OF this] h1 have h2: "is_heap ?lt1 ?rrn1" by simp
  have h3: "is_heap ?lt1 (ready_to_run_namespaces s')"
  proof (cases "?r1 \<noteq> []")
    case True
    have "is_heap ?lt1 (push_heap ?lt1 (?rrn1 @ [k]))"
      using h2 by (intro is_heap_push_heap strict_weak_CompareTaskNamespacePriority) simp
    then show ?thesis using True by (simp add: rrn)
  next
    case False
    then show ?thesis using h2 by (simp add: rrn)
  qed
  have "\<forall>a\<in>set (ready_to_run_namespaces s'). head_task ?nss1 a = head_task (namespaces s') a"
    by (simp add: nss head_task_update)
  from is_heap_namespaces_cong [OF this] h3
  have a: "is_heap (CompareTaskNamespacePriority (namespaces s')) (ready_to_run_namespaces s')"
    by simp
  have hk: "is_heap CompareTaskPriority ?r1"
    using h0 ns by (intro is_heap_pop_heap strict_weak_CompareTaskPriority) blast
  have b: "is_heap CompareTaskPriority (ready_to_run_tasks ns')"
    if "map_of (namespaces s') k' = Some ns'" for k' ns'
    using that h0 hk by (auto simp: nss update_conv' split: if_splits)
  from a b show ?thesis unfolding heaps_ok_iff [OF dk'] by blast
qed

subsection \<open>The fan-out keeps the queues in order\<close>

lemma fan_out_step_cases:
  assumes "fan_out_step k d (ns, r, rrn, h) = Inr (ns', r', rrn', h')"
  obtains i where "find_node ns d = Some i" "dependencies (ns ! i) \<noteq> 0"
      "ns' = ns[i := (ns ! i)\<lparr>dependencies := dependencies (ns ! i) - 1\<rparr>]"
      "dependencies (ns ! i) - 1 \<noteq> 0" "r' = r" "rrn' = rrn" "h' = h"
  | i where "find_node ns d = Some i" "dependencies (ns ! i) \<noteq> 0"
      "ns' = ns[i := (ns ! i)\<lparr>dependencies := dependencies (ns ! i) - 1\<rparr>]"
      "dependencies (ns ! i) - 1 = 0"
      "r' = push_heap CompareTaskPriority (r @ [prioritized (ns ! i)])"
      "r = []" "k \<notin> set rrn" "rrn' = rrn @ [k]" "\<not> h'"
  | i where "find_node ns d = Some i" "dependencies (ns ! i) \<noteq> 0"
      "ns' = ns[i := (ns ! i)\<lparr>dependencies := dependencies (ns ! i) - 1\<rparr>]"
      "dependencies (ns ! i) - 1 = 0"
      "r' = push_heap CompareTaskPriority (r @ [prioritized (ns ! i)])"
      "r \<noteq> []" "rrn' = rrn" "\<not> h'"
  using assms
  by (auto simp: fan_out_step_def Let_def prioritized_def split: option.splits if_splits)

lemma fan_out_step_queues:
  assumes "fan_out_step k d (ns, r, rrn, h) = Inr (ns', r', rrn', h')"
    and "is_heap CompareTaskPriority r" and "distinct rrn" and "k \<in> set rrn \<longleftrightarrow> r \<noteq> []"
  shows "is_heap CompareTaskPriority r' \<and> distinct rrn' \<and> (k \<in> set rrn' \<longleftrightarrow> r' \<noteq> []) \<and>
         set rrn' - {k} = set rrn - {k} \<and> (h' \<longrightarrow> h \<and> r' = r \<and> rrn' = rrn)"
  using assms(1)
proof (cases rule: fan_out_step_cases)
  case (1 i)
  then show ?thesis using assms by simp
next
  case (2 i)
  have "is_heap CompareTaskPriority r'"
    unfolding 2(5) using assms(2)
    by (intro is_heap_push_heap strict_weak_CompareTaskPriority) simp
  moreover have "r' \<noteq> []" unfolding 2(5) by (metis length_0_conv length_push_heap snoc_eq_iff_butlast)
  ultimately show ?thesis using 2 assms by auto
next
  case (3 i)
  have "is_heap CompareTaskPriority r'"
    unfolding 3(5) using assms(2)
    by (intro is_heap_push_heap strict_weak_CompareTaskPriority) simp
  moreover have "r' \<noteq> []" unfolding 3(5) by (metis length_0_conv length_push_heap snoc_eq_iff_butlast)
  ultimately show ?thesis using 3 assms by auto
qed

lemma fan_out_queues:
  "fan_out k es t (ns, r, rrn, h) = Inr (ns', r', rrn', h') \<Longrightarrow>
   is_heap CompareTaskPriority r \<Longrightarrow> distinct rrn \<Longrightarrow> (k \<in> set rrn \<longleftrightarrow> r \<noteq> []) \<Longrightarrow>
   is_heap CompareTaskPriority r' \<and> distinct rrn' \<and> (k \<in> set rrn' \<longleftrightarrow> r' \<noteq> []) \<and>
   set rrn' - {k} = set rrn - {k} \<and> (h' \<longrightarrow> h \<and> r' = r \<and> rrn' = rrn)"
proof (induction es arbitrary: ns r rrn h)
  case Nil
  then show ?case by simp
next
  case (Cons e es)
  show ?case
  proof (cases "Edge.task e = t")
    case False
    with Cons.prems Cons.IH [of ns r rrn h] show ?thesis by simp
  next
    case True
    with Cons.prems(1) obtain ns1 r1 rrn1 h1 where
      st: "fan_out_step k (dependent e) (ns, r, rrn, h) = Inr (ns1, r1, rrn1, h1)"
      and rest: "fan_out k es t (ns1, r1, rrn1, h1) = Inr (ns', r', rrn', h')"
      by (auto split: sum.splits)
    from fan_out_step_queues [OF st Cons.prems(2,3,4)]
    have q1: "is_heap CompareTaskPriority r1" "distinct rrn1" "k \<in> set rrn1 \<longleftrightarrow> r1 \<noteq> []"
      "set rrn1 - {k} = set rrn - {k}" "h1 \<longrightarrow> h \<and> r1 = r \<and> rrn1 = rrn"
      by blast+
    from Cons.IH [OF rest q1(1,2,3)] q1(4,5) show ?thesis by auto
  qed
qed

lemma RunTask_finish_Inr:
  assumes "RunTask_finish i t k s = Inr s'"
  obtains ns ns_nodes r rrn h where
    "map_of (namespaces s) k = Some ns"
    "num_running_tasks ns \<noteq> 0" "i < length (running_tasks s)"
    "fan_out k (edges (graph ns)) t
       (nodes (graph ns), ready_to_run_tasks ns, ready_to_run_namespaces s, True)
     = Inr (ns_nodes, r, rrn, h)"
    "namespaces s' =
       AList.update k
         (ns\<lparr>graph := (graph ns)\<lparr>nodes := ns_nodes\<rparr>,
             ready_to_run_tasks := r,
             completed_tasks := completed_tasks ns @ [t],
             num_running_tasks := num_running_tasks ns - 1\<rparr>) (namespaces s)"
    "h \<or> list_all (has_ready_tasks (namespaces s')) rrn"
    "ready_to_run_namespaces s' =
       (if h then rrn else make_heap (CompareTaskNamespacePriority (namespaces s')) rrn)"
    "running_tasks s' = (running_tasks s)[i := None]"
    "did_run s' = (did_run s)(t := True)"
proof -
  from assms obtain ns where ns: "map_of (namespaces s) k = Some ns"
    by (auto simp: RunTask_finish_def split: option.splits)
  from assms ns have a: "num_running_tasks ns \<noteq> 0" "i < length (running_tasks s)"
    by (auto simp: RunTask_finish_def split: if_splits)
  from assms ns a obtain ns_nodes r rrn h where
    f: "fan_out k (edges (graph ns)) t
       (nodes (graph ns), ready_to_run_tasks ns, ready_to_run_namespaces s, True)
     = Inr (ns_nodes, r, rrn, h)"
    by (auto simp: RunTask_finish_def split: sum.splits)
  let ?nss = "AList.update k
         (ns\<lparr>graph := (graph ns)\<lparr>nodes := ns_nodes\<rparr>,
             ready_to_run_tasks := r,
             completed_tasks := completed_tasks ns @ [t],
             num_running_tasks := num_running_tasks ns - 1\<rparr>) (namespaces s)"
  from assms ns a f have g: "h \<or> list_all (has_ready_tasks ?nss) rrn"
    by (auto simp: RunTask_finish_def Let_def split: if_splits)
  let ?S = "s\<lparr>namespaces := ?nss,
      ready_to_run_namespaces :=
        (if h then rrn else make_heap (CompareTaskNamespacePriority ?nss) rrn),
      running_tasks := (running_tasks s)[i := None],
      did_run := (did_run s)(t := True)\<rparr>"
  have X: "RunTask_finish i t k s = Inr ?S"
    using ns a f g by (auto simp: RunTask_finish_def Let_def)
  have "(Inr s' :: error + TaskGraphRunner) = Inr ?S"
    by (rule trans [OF assms [symmetric] X])
  then have s': "s' = ?S" by (simp only: sum.inject)
  show ?thesis
    by (rule that [OF ns a f]) (use g in \<open>simp_all add: s'\<close>)
qed

lemma RunTask_finish_queues:
  assumes f: "RunTask_finish i t k s = Inr s'"
    and r: "ready_namespaces_ok s" and h: "heaps_ok s"
  shows "ready_namespaces_ok s' \<and> heaps_ok s'"
proof -
  from f obtain ns ns_nodes r' rrn' h' where
    ns: "map_of (namespaces s) k = Some ns"
    and fo: "fan_out k (edges (graph ns)) t
       (nodes (graph ns), ready_to_run_tasks ns, ready_to_run_namespaces s, True)
     = Inr (ns_nodes, r', rrn', h')"
    and nss: "namespaces s' =
       AList.update k
         (ns\<lparr>graph := (graph ns)\<lparr>nodes := ns_nodes\<rparr>,
             ready_to_run_tasks := r',
             completed_tasks := completed_tasks ns @ [t],
             num_running_tasks := num_running_tasks ns - 1\<rparr>) (namespaces s)"
    and rrn: "ready_to_run_namespaces s' =
       (if h' then rrn' else make_heap (CompareTaskNamespacePriority (namespaces s')) rrn')"
    by (rule RunTask_finish_Inr)
  from r have dk: "distinct (map fst (namespaces s))" and dr: "distinct (ready_to_run_namespaces s)"
    and mem: "\<And>k'. k' \<in> set (ready_to_run_namespaces s) \<longleftrightarrow> has_ready_tasks (namespaces s) k'"
    by (simp_all add: ready_namespaces_ok_iff)
  note h0 = h [unfolded heaps_ok_iff [OF dk]]
  have hk: "is_heap CompareTaskPriority (ready_to_run_tasks ns)" using h0 ns by blast
  have kin: "k \<in> set (ready_to_run_namespaces s) \<longleftrightarrow> ready_to_run_tasks ns \<noteq> []"
    using mem [of k] ns by (simp add: has_ready_tasks_def)
  from fan_out_queues [OF fo hk dr kin]
  have q: "is_heap CompareTaskPriority r'" "distinct rrn'" "k \<in> set rrn' \<longleftrightarrow> r' \<noteq> []"
    "set rrn' - {k} = set (ready_to_run_namespaces s) - {k}"
    "h' \<longrightarrow> r' = ready_to_run_tasks ns \<and> rrn' = ready_to_run_namespaces s"
    by blast+
  have dk': "distinct (map fst (namespaces s'))" using dk by (simp add: nss distinct_update)
  have m: "mset (ready_to_run_namespaces s') = mset rrn'" by (simp add: rrn)
  have dr': "distinct (ready_to_run_namespaces s')"
    using q(2) m by (metis mset_eq_imp_distinct_iff)
  have set': "set (ready_to_run_namespaces s') = set rrn'" using m by (rule mset_eq_setD)
  have mem': "k' \<in> set (ready_to_run_namespaces s') \<longleftrightarrow> has_ready_tasks (namespaces s') k'" for k'
  proof (cases "k' = k")
    case True
    then show ?thesis using q(3) by (simp add: set' nss has_ready_tasks_update)
  next
    case False
    then have "k' \<in> set rrn' \<longleftrightarrow> k' \<in> set (ready_to_run_namespaces s)" using q(4) by blast
    then show ?thesis using False mem [of k'] by (simp add: set' nss has_ready_tasks_update)
  qed
  have ok: "ready_namespaces_ok s'" using dk' dr' mem' by (simp add: ready_namespaces_ok_iff)
  have a: "is_heap (CompareTaskNamespacePriority (namespaces s')) (ready_to_run_namespaces s')"
  proof (cases h')
    case False
    then show ?thesis
      by (simp add: rrn is_heap_make_heap [OF strict_weak_CompareTaskNamespacePriority])
  next
    case True
    with q(5) have same: "r' = ready_to_run_tasks ns" "rrn' = ready_to_run_namespaces s" by simp_all
    have "head_task (namespaces s) k = hd (ready_to_run_tasks ns)"
      using ns by (simp add: head_task_def)
    then have "\<forall>a\<in>set (ready_to_run_namespaces s).
        head_task (namespaces s) a = head_task (namespaces s') a"
      by (simp add: nss head_task_update same)
    from is_heap_namespaces_cong [OF this] h0 True show ?thesis by (simp add: rrn same)
  qed
  have b: "is_heap CompareTaskPriority (ready_to_run_tasks ns')"
    if "map_of (namespaces s') k' = Some ns'" for k' ns'
    using that h0 q(1) by (auto simp: nss update_conv' split: if_splits)
  from a b have "heaps_ok s'" unfolding heaps_ok_iff [OF dk'] by blast
  with ok show ?thesis by simp
qed

subsection \<open>Every reachable state has its queues in order\<close>

lemma new_TaskGraphRunner_ok:
  "ready_namespaces_ok (new_TaskGraphRunner n) \<and> heaps_ok (new_TaskGraphRunner n)"
  by (simp add: ready_namespaces_ok_def heaps_ok_def new_TaskGraphRunner_def
      ready_namespaces_def is_heap_def)

lemma reachable_queues:
  "reachable P num_threads s locals \<Longrightarrow> ready_namespaces_ok s \<and> heaps_ok s"
proof (induction rule: reachable.induct)
  case reachable_init
  show ?case by (rule new_TaskGraphRunner_ok)
next
  case (reachable_SetTaskGraph s locals g token s' g')
  then have "distinct (map fst (namespaces s))" by (simp add: ready_namespaces_ok_def)
  with reachable_SetTaskGraph show ?case
    by (auto intro: SetTaskGraph_ready_namespaces_ok SetTaskGraph_heaps_ok)
next
  case (reachable_dispatch s locals i s' t k)
  then show ?case
    by (auto intro: RunTask_dispatch_ready_namespaces_ok RunTask_dispatch_heaps_ok)
next
  case (reachable_finish s locals i t k s')
  then show ?case by (auto dest: RunTask_finish_queues)
next
  case (reachable_CollectCompletedTasks s locals token out s' out')
  then show ?case
    by (auto intro: CollectCompletedTasks_ready_namespaces_ok CollectCompletedTasks_heaps_ok)
qed

subsection \<open>No task with an open dependency is on a ready queue\<close>
















subsection \<open>Runs of the example graphs\<close>

lemma SetTaskGraph_fresh_1_2:
  "SetTaskGraph 1 graph_1_2 (new_TaskGraphRunner 1) = Inr (submitted_1_2, \<lparr>nodes = [], edges = []\<rparr>)"
  by (simp add: SetTaskGraph_def set_namespace_graph_def take_namespace_def
      new_TaskGraphRunner_def new_TaskNamespace_def submitted_1_2_def graph_1_2_def node_def
      edge_def Let_def remove_old_node_def is_running_def ready_namespaces_def)

lemma RunTask_dispatch_submitted_1_2:
  "RunTask_dispatch 0 submitted_1_2 = Inr (dispatched_1, 1, 1)"
  by (simp add: RunTask_dispatch_def submitted_1_2_def dispatched_1_def has_ready_tasks_def
      Let_def)

lemma RunTask_finish_dispatched_1:
  "RunTask_finish 0 1 1 dispatched_1 = Inr finished_1"
  by (simp add: RunTask_finish_def dispatched_1_def finished_1_def graph_1_2_def node_def
      edge_def fan_out_step_def Let_def has_ready_tasks_def)

lemma reachable_submitted_1_2:
  "reachable P 1 submitted_1_2 (\<lambda>i. None)"
  if "P graph_1_2"
  using reachable_init that SetTaskGraph_fresh_1_2 by (rule reachable_SetTaskGraph)

lemma reachable_dispatched_1:
  "reachable P 1 dispatched_1 ((\<lambda>i. None)(0 := Some (1, 1)))"
  if "P graph_1_2"
  using reachable_submitted_1_2 [where P = P, OF that] _ RunTask_dispatch_submitted_1_2
  by (rule reachable_dispatch) simp

lemma reachable_finished_1:
  "reachable P 1 finished_1 ((\<lambda>i. None)(0 := Some (1, 1), 0 := None))"
  if "P graph_1_2"
  using reachable_dispatched_1 [where P = P, OF that] _ RunTask_finish_dispatched_1
  by (rule reachable_finish) simp

subsection \<open>The invariants of the scheduler\<close>

text \<open>
  C10. In every state that the operations reach, also between the two halves of
  \<^verbatim>\<open>RunTaskWithLockAcquired\<close> where the lock is released, no namespace is twice in
  \<^verbatim>\<open>ready_to_run_namespaces_\<close>, a namespace of the map is in it exactly when its ready
  queue is not empty, and every entry is a namespace of the map.
\<close>

theorem reachable_ready_namespaces:
  assumes "reachable P num_threads s locals"
  shows "distinct (ready_to_run_namespaces s) \<and>
         (\<forall>k ns. map_of (namespaces s) k = Some ns \<longrightarrow>
            (k \<in> set (ready_to_run_namespaces s) \<longleftrightarrow> ready_to_run_tasks ns \<noteq> [])) \<and>
         (\<forall>k\<in>set (ready_to_run_namespaces s). map_of (namespaces s) k \<noteq> None)"
proof -
  from assms have "ready_namespaces_ok s" by (simp add: reachable_queues)
  then have d: "distinct (ready_to_run_namespaces s)"
    and mem: "\<And>k. k \<in> set (ready_to_run_namespaces s) \<longleftrightarrow> has_ready_tasks (namespaces s) k"
    by (simp_all add: ready_namespaces_ok_iff)
  have "k \<in> set (ready_to_run_namespaces s) \<longleftrightarrow> ready_to_run_tasks ns \<noteq> []"
    if "map_of (namespaces s) k = Some ns" for k ns
    using that mem [of k] by (simp add: has_ready_tasks_def)
  moreover have "map_of (namespaces s) k \<noteq> None" if "k \<in> set (ready_to_run_namespaces s)" for k
    using that mem [of k] by (auto simp: has_ready_tasks_def split: option.splits)
  ultimately show ?thesis using d by blast
qed

theorem reachable_ready_namespaces_witness:
  "reachable (\<lambda>g. True) 1 submitted_1_2 (\<lambda>i. None) \<and>
   ready_to_run_namespaces submitted_1_2 = [1] \<and>
   reachable (\<lambda>g. True) 1 dispatched_1 ((\<lambda>i. None)(0 := Some (1, 1))) \<and>
   ready_to_run_namespaces dispatched_1 = [] \<and>
   map (ready_to_run_tasks \<circ> snd) (namespaces dispatched_1) = [[]] \<and>
   reachable (\<lambda>g. True) 1 finished_1 ((\<lambda>i. None)(0 := Some (1, 1), 0 := None)) \<and>
   ready_to_run_namespaces finished_1 = [1] \<and>
   map (ready_to_run_tasks \<circ> snd) (namespaces finished_1) =
     [[\<lparr>PrioritizedTask.task = 2, priority = 0\<rparr>]]"
proof -
  have r1: "reachable (\<lambda>g. True) 1 submitted_1_2 (\<lambda>i. None)"
    by (rule reachable_submitted_1_2 [where P = "\<lambda>g. True"]) simp
  have r2: "reachable (\<lambda>g. True) 1 dispatched_1 ((\<lambda>i. None)(0 := Some (1, 1)))"
    by (rule reachable_dispatched_1 [where P = "\<lambda>g. True"]) simp
  have r3: "reachable (\<lambda>g. True) 1 finished_1 ((\<lambda>i. None)(0 := Some (1, 1), 0 := None))"
    by (rule reachable_finished_1 [where P = "\<lambda>g. True"]) simp
  from reachable_ready_namespaces [OF r1] reachable_ready_namespaces [OF r2]
    reachable_ready_namespaces [OF r3] r1 r2 r3
  show ?thesis by (simp add: submitted_1_2_def dispatched_1_def finished_1_def)
qed



subsection \<open>Dispatch takes the most urgent task\<close>

lemma is_heap_hd_priority:
  assumes "is_heap CompareTaskPriority ps" and "q \<in> set ps"
  shows "PrioritizedTask.priority (hd ps) \<le> PrioritizedTask.priority q"
  using is_heap_hd [OF strict_weak_CompareTaskPriority assms]
  by (simp add: CompareTaskPriority_def not_less)

lemma is_heap_hd_namespace:
  assumes "is_heap (CompareTaskNamespacePriority nss) ks" and "k \<in> set ks"
  shows "PrioritizedTask.priority (head_task nss (hd ks)) \<le> PrioritizedTask.priority (head_task nss k)"
  using is_heap_hd [OF strict_weak_CompareTaskNamespacePriority assms]
  by (simp add: CompareTaskNamespacePriority_def CompareTaskPriority_def not_less)

text \<open>
  C5. Let the state be reachable and let the first half of
  \<^verbatim>\<open>RunTaskWithLockAcquired\<close> return task \<open>t\<close> of namespace \<open>k\<close>. Then \<open>k\<close> was in
  \<^verbatim>\<open>ready_to_run_namespaces_\<close>, \<open>t\<close> is the task of the head \<open>p\<close> of its ready queue, and
  the priority value of \<open>p\<close> is the smallest among all entries of the ready queues of all
  namespaces in \<^verbatim>\<open>ready_to_run_namespaces_\<close>. The entry \<open>p\<close> is removed from the queue of
  \<open>k\<close>, the running count of \<open>k\<close> goes up by one, \<open>t\<close> is put in the slot of the worker,
  \<open>k\<close> is in \<^verbatim>\<open>ready_to_run_namespaces_\<close> afterwards exactly when its queue is not empty,
  and the other entries of \<^verbatim>\<open>ready_to_run_namespaces_\<close> are as before. When the whole of
  \<^verbatim>\<open>RunTaskWithLockAcquired\<close> returns, it has run \<open>t\<close>: \<open>t\<close> has finished running and is
  the last completed task of \<open>k\<close>.
\<close>

theorem RunTask_dispatch_most_urgent:
  assumes "reachable P num_threads s locals" and "RunTask_dispatch i s = Inr (s', t, k)"
  shows "\<exists>ns p ns1.
           map_of (namespaces s) k = Some ns \<and> k \<in> set (ready_to_run_namespaces s) \<and>
           ready_to_run_tasks ns \<noteq> [] \<and> p = hd (ready_to_run_tasks ns) \<and>
           PrioritizedTask.task p = t \<and>
           (\<forall>k'\<in>set (ready_to_run_namespaces s). \<forall>ns'. map_of (namespaces s) k' = Some ns' \<longrightarrow>
              (\<forall>q\<in>set (ready_to_run_tasks ns').
                 PrioritizedTask.priority p \<le> PrioritizedTask.priority q)) \<and>
           map_of (namespaces s') k = Some ns1 \<and>
           mset (ready_to_run_tasks ns1) + {#p#} = mset (ready_to_run_tasks ns) \<and>
           num_running_tasks ns1 = num_running_tasks ns + 1 \<and>
           (k \<in> set (ready_to_run_namespaces s') \<longleftrightarrow> ready_to_run_tasks ns1 \<noteq> []) \<and>
           set (ready_to_run_namespaces s') - {k} = set (ready_to_run_namespaces s) - {k} \<and>
           running_tasks s' = (running_tasks s)[i := Some t] \<and>
           (\<forall>s'' t'. RunTaskWithLockAcquired i s = Inr (s'', t') \<longrightarrow>
              t' = t \<and> did_run s'' t \<and>
              (\<exists>ns2. map_of (namespaces s'') k = Some ns2 \<and>
                 completed_tasks ns2 = completed_tasks ns @ [t]))"
proof -
  let ?lt = "CompareTaskNamespacePriority (namespaces s)"
  let ?rrn = "ready_to_run_namespaces s"
  from assms(1) have ok: "ready_namespaces_ok s" and hp: "heaps_ok s"
    by (simp_all add: reachable_queues)
  from ok have dk: "distinct (map fst (namespaces s))"
    and mem: "\<And>k'. k' \<in> set ?rrn \<longleftrightarrow> has_ready_tasks (namespaces s) k'"
    by (simp_all add: ready_namespaces_ok_iff)
  note h0 = hp [unfolded heaps_ok_iff [OF dk]]
  from assms(2) obtain ns where
    ne: "?rrn \<noteq> []"
    and k: "k = last (pop_heap ?lt ?rrn)"
    and ns: "map_of (namespaces s) k = Some ns"
    and t: "t = PrioritizedTask.task (last (pop_heap CompareTaskPriority (ready_to_run_tasks ns)))"
    and nss: "namespaces s' =
       AList.update k
         (ns\<lparr>ready_to_run_tasks := butlast (pop_heap CompareTaskPriority (ready_to_run_tasks ns)),
             num_running_tasks := num_running_tasks ns + 1\<rparr>) (namespaces s)"
    and rt: "running_tasks s' = (running_tasks s)[i := Some t]"
    and dr: "did_run s' = did_run s"
    by (rule RunTask_dispatch_Inr)
  let ?p = "hd (ready_to_run_tasks ns)"
  let ?ns1 = "ns\<lparr>ready_to_run_tasks := butlast (pop_heap CompareTaskPriority (ready_to_run_tasks ns)),
                 num_running_tasks := num_running_tasks ns + 1\<rparr>"
  have khd: "k = hd ?rrn" using k ne by (simp add: last_pop_heap)
  then have kin: "k \<in> set ?rrn" using ne by simp
  then have rne: "ready_to_run_tasks ns \<noteq> []"
    using mem [of k] ns by (simp add: has_ready_tasks_def)
  then have lp: "last (pop_heap CompareTaskPriority (ready_to_run_tasks ns)) = ?p"
    by (rule last_pop_heap)
  have tp: "PrioritizedTask.task ?p = t" using t lp by simp
  have hk: "head_task (namespaces s) k = ?p" using ns by (simp add: head_task_def)
  have least: "PrioritizedTask.priority ?p \<le> PrioritizedTask.priority q"
    if k': "k' \<in> set ?rrn" and ns': "map_of (namespaces s) k' = Some ns'"
      and q: "q \<in> set (ready_to_run_tasks ns')" for k' ns' q
  proof -
    have "PrioritizedTask.priority (head_task (namespaces s) (hd ?rrn))
        \<le> PrioritizedTask.priority (head_task (namespaces s) k')"
      using h0 k' by (intro is_heap_hd_namespace) simp_all
    then have "PrioritizedTask.priority ?p \<le> PrioritizedTask.priority (hd (ready_to_run_tasks ns'))"
      using hk khd ns' by (simp add: head_task_def)
    also have "\<dots> \<le> PrioritizedTask.priority q"
      using h0 ns' q by (intro is_heap_hd_priority) blast+
    finally show ?thesis .
  qed
  have m1: "map_of (namespaces s') k = Some ?ns1" by (simp add: nss update_conv')
  have ms: "mset (ready_to_run_tasks ?ns1) + {#?p#} = mset (ready_to_run_tasks ns)"
    using pop_heap_split(2) [OF rne, of CompareTaskPriority] lp by simp
  have ok': "ready_namespaces_ok s'"
    using assms(2) ok by (rule RunTask_dispatch_ready_namespaces_ok)
  then have mem': "\<And>k'. k' \<in> set (ready_to_run_namespaces s') \<longleftrightarrow> has_ready_tasks (namespaces s') k'"
    by (simp add: ready_namespaces_ok_iff)
  have pushed: "k \<in> set (ready_to_run_namespaces s') \<longleftrightarrow> ready_to_run_tasks ?ns1 \<noteq> []"
    using mem' [of k] by (simp add: nss has_ready_tasks_update)
  have others: "set (ready_to_run_namespaces s') - {k} = set ?rrn - {k}"
  proof -
    have "k' \<in> set (ready_to_run_namespaces s') \<longleftrightarrow> k' \<in> set ?rrn" if "k' \<noteq> k" for k'
      using that mem' [of k'] mem [of k'] by (simp add: nss has_ready_tasks_update)
    then show ?thesis by blast
  qed
  have whole: "t' = t \<and> did_run s'' t \<and>
      (\<exists>ns2. map_of (namespaces s'') k = Some ns2 \<and> completed_tasks ns2 = completed_tasks ns @ [t])"
    if w: "RunTaskWithLockAcquired i s = Inr (s'', t')" for s'' t'
  proof -
    from w assms(2) have f: "RunTask_finish i t k s' = Inr s''" and tt: "t' = t"
      by (auto simp: RunTaskWithLockAcquired_def split: sum.splits)
    from f obtain ns' ns_nodes r rrn h where
      a: "map_of (namespaces s') k = Some ns'"
      and b: "namespaces s'' =
       AList.update k
         (ns'\<lparr>graph := (graph ns')\<lparr>nodes := ns_nodes\<rparr>,
             ready_to_run_tasks := r,
             completed_tasks := completed_tasks ns' @ [t],
             num_running_tasks := num_running_tasks ns' - 1\<rparr>) (namespaces s')"
      and c: "did_run s'' = (did_run s')(t := True)"
      by (rule RunTask_finish_Inr)
    from a m1 have "completed_tasks ns' = completed_tasks ns" by auto
    then show ?thesis using tt b c by (simp add: update_conv')
  qed
  have least': "\<forall>k'\<in>set ?rrn. \<forall>ns'. map_of (namespaces s) k' = Some ns' \<longrightarrow>
      (\<forall>q\<in>set (ready_to_run_tasks ns'). PrioritizedTask.priority ?p \<le> PrioritizedTask.priority q)"
    using least by blast
  have whole': "\<forall>s'' t'. RunTaskWithLockAcquired i s = Inr (s'', t') \<longrightarrow>
      t' = t \<and> did_run s'' t \<and>
      (\<exists>ns2. map_of (namespaces s'') k = Some ns2 \<and> completed_tasks ns2 = completed_tasks ns @ [t])"
    using whole by blast
  have num: "num_running_tasks ?ns1 = num_running_tasks ns + 1" by simp
  show ?thesis
    apply (rule exI [of _ ns], rule exI [of _ ?p], rule exI [of _ ?ns1])
    apply (intro conjI)
    using ns kin rne tp least' m1 ms num pushed others rt whole' by blast+
qed

theorem RunTask_dispatch_most_urgent_witness:
  "reachable (\<lambda>g. True) 1 submitted_x_y (\<lambda>i. None) \<and>
   RunTask_dispatch 0 submitted_x_y = Inr (dispatched_x_y, 2, 2) \<and>
   reachable (\<lambda>g. True) 1 submitted_y_x (\<lambda>i. None) \<and>
   RunTask_dispatch 0 submitted_y_x = Inr (dispatched_y_x, 2, 2) \<and>
   map (map PrioritizedTask.priority \<circ> ready_to_run_tasks \<circ> snd) (namespaces submitted_x_y)
     = [[5], [1]] \<and>
   map_sum id snd (RunTaskWithLockAcquired 0 submitted_x_y) = Inr 2 \<and>
   map_sum id snd (RunTaskWithLockAcquired 0 submitted_y_x) = Inr 2"
proof -
  have x: "SetTaskGraph 1 graph_x (new_TaskGraphRunner 1) = Inr (submitted_x, \<lparr>nodes = [], edges = []\<rparr>)"
    by (simp add: SetTaskGraph_def set_namespace_graph_def take_namespace_def
        new_TaskGraphRunner_def new_TaskNamespace_def submitted_x_def namespace_x_def graph_x_def
        node_def Let_def remove_old_node_def is_running_def ready_namespaces_def)
  have xy: "SetTaskGraph 2 graph_y submitted_x = Inr (submitted_x_y, \<lparr>nodes = [], edges = []\<rparr>)"
    by (simp add: SetTaskGraph_def set_namespace_graph_def take_namespace_def
        new_TaskNamespace_def submitted_x_def submitted_x_y_def namespace_x_def namespace_y_def
        graph_x_def graph_y_def node_def Let_def remove_old_node_def is_running_def
        ready_namespaces_def make_heap_two CompareTaskNamespacePriority_def
        CompareTaskPriority_def head_task_def)
  have y: "SetTaskGraph 2 graph_y (new_TaskGraphRunner 1) = Inr (submitted_y, \<lparr>nodes = [], edges = []\<rparr>)"
    by (simp add: SetTaskGraph_def set_namespace_graph_def take_namespace_def
        new_TaskGraphRunner_def new_TaskNamespace_def submitted_y_def namespace_y_def graph_y_def
        node_def Let_def remove_old_node_def is_running_def ready_namespaces_def)
  have yx: "SetTaskGraph 1 graph_x submitted_y = Inr (submitted_y_x, \<lparr>nodes = [], edges = []\<rparr>)"
    by (simp add: SetTaskGraph_def set_namespace_graph_def take_namespace_def
        new_TaskNamespace_def submitted_y_def submitted_y_x_def namespace_x_def namespace_y_def
        graph_x_def graph_y_def node_def Let_def remove_old_node_def is_running_def
        ready_namespaces_def make_heap_two CompareTaskNamespacePriority_def
        CompareTaskPriority_def head_task_def)
  have rx: "reachable (\<lambda>g. True) 1 submitted_x_y (\<lambda>i. None)"
    by (rule reachable_SetTaskGraph [OF reachable_SetTaskGraph [OF reachable_init _ x] _ xy])
      simp_all
  have ry: "reachable (\<lambda>g. True) 1 submitted_y_x (\<lambda>i. None)"
    by (rule reachable_SetTaskGraph [OF reachable_SetTaskGraph [OF reachable_init _ y] _ yx])
      simp_all
  have dx: "RunTask_dispatch 0 submitted_x_y = Inr (dispatched_x_y, 2, 2)"
    by (simp add: RunTask_dispatch_def submitted_x_y_def dispatched_x_y_def namespace_x_def
        namespace_y_def has_ready_tasks_def Let_def)
  have dy: "RunTask_dispatch 0 submitted_y_x = Inr (dispatched_y_x, 2, 2)"
    by (simp add: RunTask_dispatch_def submitted_y_x_def dispatched_y_x_def namespace_x_def
        namespace_y_def has_ready_tasks_def Let_def)
  have fx: "map_sum id snd (RunTaskWithLockAcquired 0 submitted_x_y) = Inr 2"
    by (simp add: RunTaskWithLockAcquired_def dx RunTask_finish_def dispatched_x_y_def
        namespace_x_def namespace_y_def graph_y_def Let_def)
  have fy: "map_sum id snd (RunTaskWithLockAcquired 0 submitted_y_x) = Inr 2"
    by (simp add: RunTaskWithLockAcquired_def dy RunTask_finish_def dispatched_y_x_def
        namespace_x_def namespace_y_def graph_y_def Let_def)
  from RunTask_dispatch_most_urgent [OF rx dx] RunTask_dispatch_most_urgent [OF ry dy]
    rx ry dx dy fx fy
  show ?thesis by (simp add: submitted_x_y_def namespace_x_def namespace_y_def)
qed

subsection \<open>The counters of the nodes\<close>





















end
